theory Spec2Isabelle
  imports Main "HOL-Library.Word" "HOL-Library.Sublist"
begin

unbundle bit_operations_syntax

section \<open>Binary cache codec\<close>

text \<open>
  The cache files are read into a \<open>Uint8Array\<close> and decoded through a \<open>DataView\<close>.
  \<open>DataView.getUint32(off, true)\<close> reads four bytes, least significant first, and throws
  a \<open>RangeError\<close> when \<open>off + 4\<close> exceeds the length of the view. The value read is a
  JavaScript number, modelled as a natural number.
\<close>

type_synonym byte = "8 word"

datatype js_error = RangeError | ImageDataError | InvokeError

definition getUint32 :: "byte list \<Rightarrow> nat \<Rightarrow> js_error + nat" where
  "getUint32 bs off =
     (if off + 4 \<le> length bs
      then Inr (unat (bs ! off) + 256 * unat (bs ! (off + 1))
                + 65536 * unat (bs ! (off + 2)) + 16777216 * unat (bs ! (off + 3)))
      else Inl RangeError)"

text \<open>
  The loop of \<open>_parseDelayBin\<close>: \<open>for (i = 0; i < count; i++) delays[i] = dv.getUint32(4 + i * 4, true)\<close>.
  \<open>read_delays bs off n\<close> performs the \<open>n\<close> remaining iterations, the next one reading at
  byte offset \<open>off\<close>; an exception of \<open>getUint32\<close> leaves the loop.
\<close>

fun read_delays :: "byte list \<Rightarrow> nat \<Rightarrow> nat \<Rightarrow> js_error + nat list" where
  "read_delays bs off 0 = Inr []"
| "read_delays bs off (Suc n) =
     (case getUint32 bs off of
        Inl e \<Rightarrow> Inl e
      | Inr d \<Rightarrow> (case read_delays bs (off + 4) n of
                    Inl e \<Rightarrow> Inl e
                  | Inr ds \<Rightarrow> Inr (d # ds)))"

definition parseDelayBin :: "byte list \<Rightarrow> js_error + nat list" where
  "parseDelayBin bs =
     (case getUint32 bs 0 of
        Inl e \<Rightarrow> Inl e
      | Inr count \<Rightarrow> read_delays bs 4 count)"

text \<open>
  Modelled from the spec: the writer of the delay table is not part of the front-end sources
  (\<open>_persistGifCaches\<close> is an empty stub there). The spec gives the layout as little-endian
  \<open>uint32 count\<close> followed by \<open>count\<close> times \<open>uint32 delayMs\<close>.
\<close>

definition le32 :: "32 word \<Rightarrow> byte list" where
  "le32 w = [ucast w, ucast (drop_bit 8 w), ucast (drop_bit 16 w), ucast (drop_bit 24 w)]"

definition encodeDelays :: "32 word list \<Rightarrow> byte list" where
  "encodeDelays ds = le32 (word_of_nat (length ds)) @ concat (map le32 ds)"

text \<open>
  \<open>_parsePreviewBin\<close>. A preview frame is a \<open>GifFrame\<close> whose \<open>canvas\<close> holds the decoded
  thumbnail (its \<open>imageData\<close> is a fixed 1 by 1 placeholder and is left out). The fields
  of a frame and of the parsed cache carry a prefix here.

  Two library calls decide what the loop does with the pixel bytes.
  \<open>bytes.buffer.slice(begin, end)\<close> clamps both ends to the buffer and never throws, so
  \<open>raw\<close> is \<open>take len (drop offset bs)\<close> (the array is built by \<open>new Uint8Array(bin)\<close>, so
  its \<open>byteOffset\<close> is 0). \<open>new ImageData(arr, pw, ph)\<close> throws unless the length of \<open>arr\<close>
  is a nonzero multiple of four, the number of pixels is a multiple of \<open>pw\<close>, and the number
  of rows is \<open>ph\<close>.
\<close>

datatype canvas = Canvas (canvas_width: nat) (canvas_height: nat) (canvas_pixels: "byte list")

record gif_frame =
  frame_delay :: nat
  frame_index :: nat
  frame_canvas :: canvas

record gif_cache =
  cached_frames :: "gif_frame list"
  cached_dims :: "nat \<times> nat"
  cached_frameDelays :: "nat list"

definition imageData_accepts :: "nat \<Rightarrow> nat \<Rightarrow> nat \<Rightarrow> bool" where
  "imageData_accepts len sw sh =
     (len \<noteq> 0 \<and> len mod 4 = 0 \<and> sw \<noteq> 0 \<and> (len div 4) mod sw = 0 \<and> (len div 4) div sw = sh)"

fun bind_err :: "'e + 'a \<Rightarrow> ('a \<Rightarrow> 'e + 'b) \<Rightarrow> 'e + 'b" where
  "bind_err (Inl e) f = Inl e"
| "bind_err (Inr v) f = f v"

text \<open>
  The loop \<open>for (i = 0; i < count; i++)\<close>: \<open>read_frames bs offset i n\<close> performs the \<open>n\<close>
  remaining iterations, the next one being iteration \<open>i\<close> and reading at \<open>offset\<close>.
\<close>

fun read_frames :: "byte list \<Rightarrow> nat \<Rightarrow> nat \<Rightarrow> nat \<Rightarrow> js_error + gif_frame list" where
  "read_frames bs offset i 0 = Inr []"
| "read_frames bs offset i (Suc n) =
     bind_err (getUint32 bs offset) (\<lambda>delay.
     bind_err (getUint32 bs (offset + 4)) (\<lambda>pw.
     bind_err (getUint32 bs (offset + 8)) (\<lambda>ph.
     bind_err (getUint32 bs (offset + 12)) (\<lambda>len.
       let raw = take len (drop (offset + 16) bs) in
       if imageData_accepts (length raw) pw ph
       then bind_err (read_frames bs (offset + 16 + len) (i + 1) n) (\<lambda>rest.
              Inr (\<lparr>frame_delay = delay, frame_index = i, frame_canvas = Canvas pw ph raw\<rparr> # rest))
       else Inl ImageDataError))))"

definition parsePreviewBin :: "byte list \<Rightarrow> js_error + gif_cache" where
  "parsePreviewBin bs =
     bind_err (getUint32 bs 0) (\<lambda>width.
     bind_err (getUint32 bs 4) (\<lambda>height.
     bind_err (getUint32 bs 8) (\<lambda>count.
     bind_err (read_frames bs 12 0 count) (\<lambda>outFrames.
       Inr \<lparr>cached_frames = outFrames, cached_dims = (width, height),
           cached_frameDelays = map frame_delay outFrames\<rparr>))))"

section \<open>Cache file names\<close>

text \<open>
  JavaScript strings are modelled as lists of code points: \<open>Array.from(baseName)\<close> iterates
  by code point, and the separators and the dot that \<open>split\<close> and \<open>replace\<close> look for are
  ASCII. \<open>lit\<close> writes an ASCII literal as such a list.
\<close>

type_synonym jsstring = "nat list"

abbreviation (input) lit :: "string \<Rightarrow> jsstring" where
  "lit s \<equiv> map of_char s"

text \<open>\<open>/[0-9A-Za-z]/.test(ch)\<close> on a string of one code point.\<close>

definition is_digit :: "nat \<Rightarrow> bool" where
  "is_digit c = (48 \<le> c \<and> c \<le> 57)"

definition is_alnum :: "nat \<Rightarrow> bool" where
  "is_alnum c = (is_digit c \<or> (65 \<le> c \<and> c \<le> 90) \<or> (97 \<le> c \<and> c \<le> 122))"

text \<open>A number in a template string: its decimal digits, without leading zeros.\<close>

function decimal :: "nat \<Rightarrow> jsstring" where
  "decimal n = (if n < 10 then [48 + n] else decimal (n div 10) @ [48 + n mod 10])"
  by pat_completeness auto

termination
  by (relation "measure (\<lambda>n. n)") auto

declare decimal.simps [simp del]

text \<open>The number a string of decimal digits stands for.\<close>

definition digits_value :: "jsstring \<Rightarrow> nat" where
  "digits_value ds = foldl (\<lambda>a d. 10 * a + (d - 48)) 0 ds"

text \<open>\<open>p.split(/[/\\]/)\<close>: the pieces between slashes (47) and backslashes (92).\<close>

fun split_path :: "jsstring \<Rightarrow> jsstring list" where
  "split_path [] = [[]]"
| "split_path (c # cs) =
     (if c = 47 \<or> c = 92 then [] # split_path cs
      else (case split_path cs of
              [] \<Rightarrow> [[c]]
            | s # ss \<Rightarrow> (c # s) # ss))"

text \<open>
  \<open>.replace(/\.[^/.]+$/, '')\<close>: the pattern matches a dot (46) followed, up to the end of the
  string, by at least one character, none of them a slash or a dot. Such a dot can only be the
  last dot of the string.
\<close>

definition strip_extension :: "jsstring \<Rightarrow> jsstring" where
  "strip_extension s =
     (let ext = rev (takeWhile (\<lambda>c. c \<noteq> 46) (rev s)) in
      if 46 \<in> set s \<and> ext \<noteq> [] \<and> 47 \<notin> set ext
      then take (length s - length ext - 1) s
      else s)"

definition baseName :: "jsstring \<Rightarrow> jsstring" where
  "baseName p =
     strip_extension (let seg = last (split_path p) in if seg = [] then lit ''gif'' else seg)"

text \<open>The map over the code points of the base name, and the join.\<close>

definition safe_char :: "nat \<Rightarrow> jsstring" where
  "safe_char cp = (if is_alnum cp then [cp] else 95 # decimal cp)"

definition safe_name :: "jsstring \<Rightarrow> jsstring" where
  "safe_name b = concat (map safe_char b)"

definition safeBaseFromPath :: "jsstring \<Rightarrow> jsstring" where
  "safeBaseFromPath p = safe_name (baseName p)"

text \<open>
  A base name in which no character that gets replaced is directly followed by a digit.
\<close>

fun digit_free_escapes :: "jsstring \<Rightarrow> bool" where
  "digit_free_escapes (c # d # cs) = ((is_alnum c \<or> \<not> is_digit d) \<and> digit_free_escapes (d # cs))"
| "digit_free_escapes [c] = True"
| "digit_free_escapes [] = True"

section \<open>Frame-rate reduction preview\<close>

text \<open>
  \<open>fpsPreview\<close> walks \<open>frames\<close> with an index \<open>i\<close>; the recursion below is on the frames
  from index \<open>i\<close> on. Delays, the threshold and the keep interval are JavaScript numbers
  holding integers.

  \<open>merge_fast thr K j rest acc cnt\<close> is the inner loop
  \<open>for (j = 1; j < fpsKeepInterval && i + j < frames.length; j++)\<close>, where \<open>rest\<close> holds the
  frames from index \<open>i + j\<close> on, \<open>acc\<close> is \<open>accumulatedDelay\<close> and \<open>cnt\<close> is \<open>fastFrameCount\<close>.
\<close>

fun merge_fast :: "int \<Rightarrow> int \<Rightarrow> int \<Rightarrow> int list \<Rightarrow> int \<Rightarrow> nat \<Rightarrow> int \<times> nat" where
  "merge_fast thr K j [] acc cnt = (acc, cnt)"
| "merge_fast thr K j (d # ds) acc cnt =
     (if j < K
      then (if d < thr then merge_fast thr K (j + 1) ds (acc + d) (cnt + 1)
            else (acc, cnt))
      else (acc, cnt))"

lemma merge_fast_count_lower: "cnt \<le> snd (merge_fast thr K j ds acc cnt)"
proof (induction ds arbitrary: j acc cnt)
  case Nil
  show ?case by simp
next
  case (Cons d ds)
  have "cnt \<le> cnt + 1" by simp
  also have "\<dots> \<le> snd (merge_fast thr K (j + 1) ds (acc + d) (cnt + 1))"
    by (rule Cons.IH)
  finally show ?case by simp
qed

text \<open>
  The outer loop \<open>while (i < frames.length)\<close>, collecting \<open>newDelays\<close>. A frame whose delay
  reaches the threshold is pushed as it is; otherwise the fast frames that follow are merged
  and \<open>Math.min(accumulatedDelay, 65535)\<close> is pushed.
\<close>

function fps_newDelays :: "int \<Rightarrow> int \<Rightarrow> int list \<Rightarrow> int list" where
  "fps_newDelays thr K [] = []"
| "fps_newDelays thr K (d # ds) =
     (if d \<ge> thr then d # fps_newDelays thr K ds
      else (case merge_fast thr K 1 ds d 1 of
              (accumulatedDelay, fastFrameCount) \<Rightarrow>
                min accumulatedDelay 65535 # fps_newDelays thr K (drop fastFrameCount (d # ds))))"
  by pat_completeness auto

termination
proof (relation "measure (\<lambda>(thr, K, frames). length frames)")
  show "wf (measure (\<lambda>(thr, K, frames). length frames))" by simp
next
  fix thr K :: int and d :: int and ds :: "int list"
  assume "thr \<le> d"
  show "((thr, K, ds), (thr, K, d # ds)) \<in> measure (\<lambda>(thr, K, frames). length frames)"
    by simp
next
  fix thr K :: int and d :: int and ds :: "int list"
    and accumulatedDelay :: int and fastFrameCount :: nat
  assume "\<not> thr \<le> d"
    and p: "(accumulatedDelay, fastFrameCount) = merge_fast thr K 1 ds d 1"
  have "1 \<le> snd (merge_fast thr K 1 ds d 1)" by (rule merge_fast_count_lower)
  then have "1 \<le> fastFrameCount" using p by (metis snd_conv)
  then show "((thr, K, drop fastFrameCount (d # ds)), (thr, K, d # ds))
               \<in> measure (\<lambda>(thr, K, frames). length frames)"
    by simp
qed

text \<open>
  The values \<open>accumulatedDelay\<close> takes at the pushes of merged groups, before the cap: the
  same traversal as \<open>fps_newDelays\<close>, recording the uncapped sum of each merged group and
  nothing for a frame kept as it is.
\<close>

function fps_accumulated :: "int \<Rightarrow> int \<Rightarrow> int list \<Rightarrow> int list" where
  "fps_accumulated thr K [] = []"
| "fps_accumulated thr K (d # ds) =
     (if d \<ge> thr then fps_accumulated thr K ds
      else (case merge_fast thr K 1 ds d 1 of
              (accumulatedDelay, fastFrameCount) \<Rightarrow>
                accumulatedDelay # fps_accumulated thr K (drop fastFrameCount (d # ds))))"
  by pat_completeness auto

termination
proof (relation "measure (\<lambda>(thr, K, frames). length frames)")
  show "wf (measure (\<lambda>(thr, K, frames). length frames))" by simp
next
  fix thr K :: int and d :: int and ds :: "int list"
  assume "thr \<le> d"
  show "((thr, K, ds), (thr, K, d # ds)) \<in> measure (\<lambda>(thr, K, frames). length frames)"
    by simp
next
  fix thr K :: int and d :: int and ds :: "int list"
    and accumulatedDelay :: int and fastFrameCount :: nat
  assume "\<not> thr \<le> d"
    and p: "(accumulatedDelay, fastFrameCount) = merge_fast thr K 1 ds d 1"
  have "1 \<le> snd (merge_fast thr K 1 ds d 1)" by (rule merge_fast_count_lower)
  then have "1 \<le> fastFrameCount" using p by (metis snd_conv)
  then show "((thr, K, drop fastFrameCount (d # ds)), (thr, K, d # ds))
               \<in> measure (\<lambda>(thr, K, frames). length frames)"
    by simp
qed

section \<open>Disk cache loader\<close>

text \<open>
  The three back-end commands \<open>_tryLoadDiskCaches\<close> awaits. \<open>None\<close> is a rejected
  \<open>invoke\<close>, which throws at the \<open>await\<close>.
\<close>

record backend =
  path_exists :: "jsstring \<Rightarrow> bool option"
  get_file_size :: "jsstring \<Rightarrow> nat option"
  read_file_in_chunks :: "jsstring \<Rightarrow> byte list option"

definition invoke :: "'a option \<Rightarrow> js_error + 'a" where
  "invoke r = (case r of None \<Rightarrow> Inl InvokeError | Some v \<Rightarrow> Inr v)"

text \<open>\<open>_global_delay_cache\<close>, a \<open>Map\<close> from path to delay list.\<close>

type_synonym delay_cache = "jsstring \<rightharpoonup> nat list"

record load_result =
  loadedPreview :: "gif_cache option"
  loadedDelays :: "nat list option"
  global_delay_cache :: delay_cache

text \<open>
  The size of a sidecar: \<open>let size = 0; if (exists) { try { size = await invoke(...) } catch {} }\<close>.
\<close>

definition sidecar_size :: "backend \<Rightarrow> jsstring \<Rightarrow> bool \<Rightarrow> nat" where
  "sidecar_size be name ex =
     (if ex then (case get_file_size be name of Some n \<Rightarrow> n | None \<Rightarrow> 0) else 0)"

text \<open>The preview branch (lines 248 to 274); the progress display is left out.\<close>

definition load_preview :: "backend \<Rightarrow> bool \<Rightarrow> jsstring \<Rightarrow> jsstring \<Rightarrow> js_error + gif_cache option" where
  "load_preview be doVerify previewName previewHashName =
     (if doVerify
      then bind_err (invoke (path_exists be previewHashName)) (\<lambda>existsPH.
             let phSize = sidecar_size be previewHashName existsPH in
             if existsPH \<and> phSize > 0
             then bind_err (invoke (read_file_in_chunks be previewName)) (\<lambda>bin.
                  bind_err (parsePreviewBin bin) (\<lambda>parsed. Inr (Some parsed)))
             else Inr None)
      else bind_err (invoke (read_file_in_chunks be previewName)) (\<lambda>bin.
           bind_err (parsePreviewBin bin) (\<lambda>parsed. Inr (Some parsed))))"

text \<open>
  The delay branch (lines 275 to 301). A loaded table is also stored in the global delay
  cache under \<open>gifPath\<close>, and under \<open>altPath\<close> when that is a non-empty string.
\<close>

definition store_delays :: "jsstring \<Rightarrow> jsstring option \<Rightarrow> nat list \<Rightarrow> delay_cache \<Rightarrow> delay_cache" where
  "store_delays gifPath altPath delays gc =
     (let gc1 = gc(gifPath \<mapsto> delays) in
      case altPath of
        Some a \<Rightarrow> if a \<noteq> [] then gc1(a \<mapsto> delays) else gc1
      | None \<Rightarrow> gc1)"

definition load_delays ::
  "backend \<Rightarrow> bool \<Rightarrow> jsstring \<Rightarrow> jsstring \<Rightarrow> jsstring \<Rightarrow> jsstring option \<Rightarrow> delay_cache
     \<Rightarrow> js_error + nat list option \<times> delay_cache" where
  "load_delays be doVerify delayName delayHashName gifPath altPath gc =
     (if doVerify
      then bind_err (invoke (path_exists be delayHashName)) (\<lambda>existsDH.
             let dhSize = sidecar_size be delayHashName existsDH in
             if existsDH \<and> dhSize > 0
             then bind_err (invoke (read_file_in_chunks be delayName)) (\<lambda>bin.
                  bind_err (parseDelayBin bin) (\<lambda>delays.
                    Inr (Some delays, store_delays gifPath altPath delays gc)))
             else Inr (None, gc))
      else bind_err (invoke (read_file_in_chunks be delayName)) (\<lambda>bin.
           bind_err (parseDelayBin bin) (\<lambda>delays.
             Inr (Some delays, store_delays gifPath altPath delays gc))))"

text \<open>The template string \<open>`${workDirPath}/_${safeBase}<ending>`\<close> of the four file names.\<close>

definition cache_name :: "jsstring \<Rightarrow> jsstring \<Rightarrow> string \<Rightarrow> jsstring" where
  "cache_name workDirPath safeBase ending = workDirPath @ lit ''/_'' @ safeBase @ lit ending"

text \<open>The body of the \<open>try\<close> block of \<open>_tryLoadDiskCaches\<close>.\<close>

definition tryLoad_body ::
  "backend \<Rightarrow> delay_cache \<Rightarrow> jsstring \<Rightarrow> jsstring \<Rightarrow> jsstring option \<Rightarrow> bool option
     \<Rightarrow> js_error + load_result" where
  "tryLoad_body be gc workDirPath gifPath altPath verify =
     (let safeBase = safeBaseFromPath gifPath;
          previewName = cache_name workDirPath safeBase ''_preview.bin'';
          delayName = cache_name workDirPath safeBase ''_delays.bin'';
          previewHashName = cache_name workDirPath safeBase ''_preview.sha256'';
          delayHashName = cache_name workDirPath safeBase ''_delays.sha256'';
          doVerify = (verify \<noteq> Some False)
      in bind_err (invoke (path_exists be previewName)) (\<lambda>existsPreview.
         bind_err (invoke (path_exists be delayName)) (\<lambda>existsDelay.
         bind_err (if existsPreview then load_preview be doVerify previewName previewHashName
                   else Inr None) (\<lambda>lp.
         bind_err (if existsDelay
                   then load_delays be doVerify delayName delayHashName gifPath altPath gc
                   else Inr (None, gc)) (\<lambda>(ld, gc').
           Inr \<lparr>loadedPreview = lp, loadedDelays = ld, global_delay_cache = gc'\<rparr>)))))"

text \<open>
  \<open>_tryLoadDiskCaches\<close>: whatever is thrown inside the \<open>try\<close> block is caught and both
  artifacts are returned as \<open>null\<close>.
\<close>

definition tryLoadDiskCaches ::
  "backend \<Rightarrow> delay_cache \<Rightarrow> jsstring \<Rightarrow> jsstring \<Rightarrow> jsstring option \<Rightarrow> bool option \<Rightarrow> load_result" where
  "tryLoadDiskCaches be gc workDirPath gifPath altPath verify =
     (case tryLoad_body be gc workDirPath gifPath altPath verify of
        Inl e \<Rightarrow> \<lparr>loadedPreview = None, loadedDelays = None, global_delay_cache = gc\<rparr>
      | Inr r \<Rightarrow> r)"

text \<open>The four cache files of a source, as \<open>_tryLoadDiskCaches\<close> names them.\<close>

definition cache_file :: "jsstring \<Rightarrow> jsstring \<Rightarrow> string \<Rightarrow> jsstring" where
  "cache_file workDirPath gifPath ending =
     cache_name workDirPath (safeBaseFromPath gifPath) ending"

text \<open>A back end that serves the files of an association list and never rejects.\<close>

definition files_backend :: "(jsstring \<times> byte list) list \<Rightarrow> backend" where
  "files_backend fs =
     \<lparr>path_exists = (\<lambda>p. Some (map_of fs p \<noteq> None)),
      get_file_size = (\<lambda>p. map_option length (map_of fs p)),
      read_file_in_chunks = map_of fs\<rparr>"

text \<open>
  A sidecar that passes the check of the loader: it exists and its size is reported and
  positive. The check is made only when \<open>verify\<close> is not \<open>false\<close>.
\<close>

definition sidecar_valid :: "backend \<Rightarrow> jsstring \<Rightarrow> bool" where
  "sidecar_valid be name =
     (path_exists be name = Some True
      \<and> (case get_file_size be name of Some n \<Rightarrow> 0 < n | None \<Rightarrow> False))"

definition gate_open :: "backend \<Rightarrow> bool option \<Rightarrow> jsstring \<Rightarrow> bool" where
  "gate_open be verify name = (verify = Some False \<or> sidecar_valid be name)"

definition all_absent :: "delay_cache \<Rightarrow> load_result" where
  "all_absent gc = \<lparr>loadedPreview = None, loadedDelays = None, global_delay_cache = gc\<rparr>"

text \<open>
  Example files for the source \<open>/w/cat.gif\<close> in the work directory \<open>/w\<close>: a delay table of
  two delays, a delay table whose count announces three delays and holds one, and a preview
  bundle of one frame of one pixel.
\<close>

definition work_dir :: jsstring where
  "work_dir = lit ''/w''"

definition cat_gif :: jsstring where
  "cat_gif = lit ''/w/cat.gif''"

definition cat_delays_bin :: "byte list" where
  "cat_delays_bin = [2, 0, 0, 0,  100, 0, 0, 0,  33, 0, 0, 0]"

definition short_delays_bin :: "byte list" where
  "short_delays_bin = [3, 0, 0, 0,  100, 0, 0, 0]"

definition cat_preview_bin :: "byte list" where
  "cat_preview_bin = [1, 0, 0, 0,  1, 0, 0, 0,  1, 0, 0, 0,
                      100, 0, 0, 0,  1, 0, 0, 0,  1, 0, 0, 0,  4, 0, 0, 0,
                      255, 0, 0, 255]"

definition cat_files_without_sidecars :: "(jsstring \<times> byte list) list" where
  "cat_files_without_sidecars =
     [(lit ''/w/_cat_preview.bin'', cat_preview_bin),
      (lit ''/w/_cat_delays.bin'', cat_delays_bin),
      (lit ''/w/_cat_delays.sha256'', [])]"

definition cat_files_short_delays :: "(jsstring \<times> byte list) list" where
  "cat_files_short_delays =
     [(lit ''/w/_cat_preview.bin'', cat_preview_bin),
      (lit ''/w/_cat_preview.sha256'', [97, 98]),
      (lit ''/w/_cat_delays.bin'', short_delays_bin),
      (lit ''/w/_cat_delays.sha256'', [97, 98])]"

text \<open>
  A preview bundle whose frame count announces two frames and holds one, and one whose only
  frame announces 100 pixel bytes and holds four.
\<close>

definition short_preview_bin :: "byte list" where
  "short_preview_bin = [1, 0, 0, 0,  1, 0, 0, 0,  2, 0, 0, 0,
                        100, 0, 0, 0,  1, 0, 0, 0,  1, 0, 0, 0,  4, 0, 0, 0,
                        255, 0, 0, 255]"

definition overlong_preview_bin :: "byte list" where
  "overlong_preview_bin = [1, 0, 0, 0,  1, 0, 0, 0,  1, 0, 0, 0,
                           100, 0, 0, 0,  1, 0, 0, 0,  1, 0, 0, 0,  100, 0, 0, 0,
                           255, 0, 0, 255]"

definition cat_files_short_preview :: "(jsstring \<times> byte list) list" where
  "cat_files_short_preview =
     [(lit ''/w/_cat_preview.bin'', short_preview_bin),
      (lit ''/w/_cat_preview.sha256'', [97, 98]),
      (lit ''/w/_cat_delays.bin'', cat_delays_bin),
      (lit ''/w/_cat_delays.sha256'', [97, 98])]"

section \<open>Preload cache of the player\<close>

text \<open>
  \<open>preloadCacheRef\<close> is a JavaScript \<open>Map\<close> from frame index to image element. A \<open>Map\<close>
  iterates in insertion order, so it is modelled as an association list, oldest entry first;
  \<open>Map.set\<close> on a key already present replaces the value where it stands. Of an image only
  its \<open>src\<close> matters here. \<open>revoked\<close> logs the calls of \<open>URL.revokeObjectURL\<close>.
\<close>

type_synonym image = string

type_synonym preload_map = "(nat \<times> image) list"

definition map_has :: "nat \<Rightarrow> preload_map \<Rightarrow> bool" where
  "map_has k m = (map_of m k \<noteq> None)"

definition map_set :: "nat \<Rightarrow> image \<Rightarrow> preload_map \<Rightarrow> preload_map" where
  "map_set k v m =
     (if map_has k m then map (\<lambda>(k', v'). if k' = k then (k', v) else (k', v')) m
      else m @ [(k, v)])"

definition map_delete :: "nat \<Rightarrow> preload_map \<Rightarrow> preload_map" where
  "map_delete k m = filter (\<lambda>(k', v'). k' \<noteq> k) m"

record player =
  preloadCache :: preload_map
  revoked :: "string list"

definition new_player :: player where
  "new_player = \<lparr>preloadCache = [], revoked = []\<rparr>"

definition revokeObjectURL :: "string \<Rightarrow> player \<Rightarrow> player" where
  "revokeObjectURL url st = st\<lparr>revoked := revoked st @ [url]\<rparr>"

text \<open>
  The \<open>img.onload\<close> handler of \<open>preloadFrames\<close>: store the image, then, when the map holds
  more than 20 entries, revoke the blob URL of the first key and delete that key.
\<close>

definition preload_onload :: "nat \<Rightarrow> image \<Rightarrow> player \<Rightarrow> player" where
  "preload_onload frameIdx img st =
     (let st1 = st\<lparr>preloadCache := map_set frameIdx img (preloadCache st)\<rparr> in
      if length (preloadCache st1) > 20
      then (case preloadCache st1 of
              [] \<Rightarrow> st1
            | (firstKey, _) # _ \<Rightarrow>
                (let st2 = (case map_of (preloadCache st1) firstKey of
                              Some oldImg \<Rightarrow>
                                if prefix ''blob:'' oldImg then revokeObjectURL oldImg st1 else st1
                            | None \<Rightarrow> st1)
                 in st2\<lparr>preloadCache := map_delete firstKey (preloadCache st2)\<rparr>))
      else st1)"

text \<open>
  The \<open>img.onload\<close> handler of \<open>renderFrame\<close>, as far as the cache goes: it stores the image
  of the current frame and does nothing else to the map.
\<close>

definition render_onload :: "nat \<Rightarrow> image \<Rightarrow> player \<Rightarrow> player" where
  "render_onload currentFrame img st =
     st\<lparr>preloadCache := map_set currentFrame img (preloadCache st)\<rparr>"

text \<open>A run of successful loads, the frame \<open>i\<close> loading as the image \<open>img i\<close>.\<close>

definition preload_all :: "(nat \<Rightarrow> image) \<Rightarrow> nat list \<Rightarrow> player \<Rightarrow> player" where
  "preload_all img idxs st = foldl (\<lambda>s i. preload_onload i (img i) s) st idxs"

definition render_all :: "(nat \<Rightarrow> image) \<Rightarrow> nat list \<Rightarrow> player \<Rightarrow> player" where
  "render_all img idxs st = foldl (\<lambda>s i. render_onload i (img i) s) st idxs"

section \<open>Speed adjustment of a frame range\<close>

text \<open>
  The same block stands in \<open>generatePreviewGif\<close> (lines 1271 to 1296) and in \<open>applyChanges\<close>
  (lines 3375 to 3403). Delays and the target are JavaScript numbers holding integers, and
  \<open>rangeStart\<close>, \<open>rangeEnd\<close> are indices.

  \<open>Math.round(d * ratio)\<close> with \<open>ratio = targetSum / currentRangeSum\<close> is computed in double
  precision. The embedding takes it as a parameter \<open>rnd targetSum currentRangeSum d\<close>;
  \<open>exact_round\<close> is the value when the product is exact (\<open>Math.round\<close> rounds a half up).
\<close>

definition exact_round :: "int \<Rightarrow> int \<Rightarrow> int \<Rightarrow> int" where
  "exact_round targetSum currentRangeSum d =
     (2 * d * targetSum + currentRangeSum) div (2 * currentRangeSum)"

text \<open>\<open>xs.slice(rangeStart, rangeEnd + 1).reduce((s, d) => s + d, 0)\<close>.\<close>

definition range_sum :: "int list \<Rightarrow> nat \<Rightarrow> nat \<Rightarrow> int" where
  "range_sum xs rangeStart rangeEnd = sum_list (take (rangeEnd + 1 - rangeStart) (drop rangeStart xs))"

text \<open>The \<open>map\<close> that scales the delays of the range and clamps them to 10.\<close>

definition scale_range :: "(int \<Rightarrow> int) \<Rightarrow> nat \<Rightarrow> nat \<Rightarrow> int list \<Rightarrow> int list" where
  "scale_range round_scaled rangeStart rangeEnd frameDelays =
     map (\<lambda>i. if rangeStart \<le> i \<and> i \<le> rangeEnd
              then max 10 (round_scaled (frameDelays ! i))
              else frameDelays ! i)
         [0..<length frameDelays]"

text \<open>
  The inner loop \<open>for (i = rangeStart; i <= rangeEnd && diff > 0; i++)\<close>, from index \<open>i\<close> on:
  a step down that would go below 10 is skipped.
\<close>

function distribute_inner :: "int \<Rightarrow> nat \<Rightarrow> nat \<Rightarrow> int list \<Rightarrow> nat \<Rightarrow> int list \<times> nat" where
  "distribute_inner dir i rangeEnd frameDelays diff =
     (if i \<le> rangeEnd \<and> diff > 0
      then (let nd = frameDelays ! i + dir in
            if dir < 0 \<and> nd < 10
            then distribute_inner dir (i + 1) rangeEnd frameDelays diff
            else distribute_inner dir (i + 1) rangeEnd (frameDelays[i := nd]) (diff - 1))
      else (frameDelays, diff))"
  by pat_completeness auto

termination
  by (relation "measure (\<lambda>(dir, i, rangeEnd, frameDelays, diff). rangeEnd + 1 - i)") auto

declare distribute_inner.simps [simp del]

text \<open>The outer loop \<open>for (pass = 0; pass < 2 && diff > 0; pass++)\<close>.\<close>

function distribute :: "int \<Rightarrow> nat \<Rightarrow> nat \<Rightarrow> nat \<Rightarrow> int list \<Rightarrow> nat \<Rightarrow> int list \<times> nat" where
  "distribute dir rangeStart rangeEnd pass frameDelays diff =
     (if pass < 2 \<and> diff > 0
      then (case distribute_inner dir rangeStart rangeEnd frameDelays diff of
              (frameDelays', diff') \<Rightarrow> distribute dir rangeStart rangeEnd (pass + 1) frameDelays' diff')
      else (frameDelays, diff))"
  by pat_completeness auto

termination
  by (relation "measure (\<lambda>(dir, rangeStart, rangeEnd, pass, frameDelays, diff). 2 - pass)") auto

declare distribute.simps [simp del]

text \<open>
  The whole block. The result is \<open>None\<close> for the runs that the integer model does not cover,
  in which the source computes with \<open>Infinity\<close>, \<open>NaN\<close> or \<open>undefined\<close>: a scaling is
  due, the range is not empty, and either the current range sum is zero (the ratio is
  infinite) or the range reaches past the last frame (the loop reads \<open>undefined\<close> there).
\<close>

definition speedAdjust ::
  "(int \<Rightarrow> int \<Rightarrow> int \<Rightarrow> int) \<Rightarrow> int list \<Rightarrow> nat \<Rightarrow> nat \<Rightarrow> int \<Rightarrow> int list option" where
  "speedAdjust rnd delays rangeStart rangeEnd targetSum =
     (let currentRangeSum = range_sum delays rangeStart rangeEnd in
      if targetSum > 0 \<and> targetSum \<noteq> currentRangeSum
      then (if rangeStart \<le> rangeEnd \<and> (length delays \<le> rangeEnd \<or> currentRangeSum = 0)
            then None
            else (let frameDelays = scale_range (rnd targetSum currentRangeSum)
                                      rangeStart rangeEnd delays;
                      newRangeSum = range_sum frameDelays rangeStart rangeEnd;
                      diff = targetSum - newRangeSum
                  in if diff \<noteq> 0
                     then (let dir = (if diff > 0 then 1 else - 1) in
                           Some (fst (distribute dir rangeStart rangeEnd 0 frameDelays
                                        (nat \<bar>diff\<bar>))))
                     else Some frameDelays))
      else Some delays)"

section \<open>Extraction progress and auto-pause\<close>

text \<open>
  The commands the front end sends to the extraction back end through \<open>invoke\<close>, logged in
  the order they are issued.
\<close>

datatype command =
    PauseExtraction
  | ResumeExtraction
  | CancelExtraction
  | ExtractFullframes jsstring
  | ExtractPreviews jsstring

text \<open>
  The state the \<open>extract-progress\<close> listener works on. \<open>autoPauseTriggered\<close> is
  \<open>autoPauseTriggeredRef.current\<close>, an object created once, when the effect that registers
  the listener runs (its dependency list is empty, so that is when the application mounts).
  \<open>hasAutoPassedOnce\<close> is the React state of line 122, which is written and never read.
\<close>

record extract_ui =
  autoPauseTriggered :: bool
  isExtractPaused :: bool
  hasAutoPassedOnce :: bool
  fullframesProgress :: "nat \<times> nat"
  previewsProgress :: "nat \<times> nat"
  sent :: "command list"

definition mounted :: extract_ui where
  "mounted = \<lparr>autoPauseTriggered = False, isExtractPaused = False, hasAutoPassedOnce = False,
              fullframesProgress = (0, 0), previewsProgress = (0, 0), sent = []\<rparr>"

text \<open>The listener body for one event with payload \<open>{stage, current, total}\<close> (\<open>tot\<close> below).\<close>

definition on_extract_progress :: "string \<Rightarrow> nat \<Rightarrow> nat \<Rightarrow> extract_ui \<Rightarrow> extract_ui" where
  "on_extract_progress stage current tot st =
     (let st1 = (if stage = ''fullframes'' then st\<lparr>fullframesProgress := (current, tot)\<rparr>
                 else if stage = ''previews'' then st\<lparr>previewsProgress := (current, tot)\<rparr>
                 else st)
      in if tot > 1000 \<and> current \<ge> 1000 \<and> \<not> autoPauseTriggered st1
         then st1\<lparr>autoPauseTriggered := True, isExtractPaused := True,
                  hasAutoPassedOnce := True, sent := sent st1 @ [PauseExtraction]\<rparr>
         else st1)"

text \<open>
  The reset at the start of loading another GIF (lines 1476 to 1481, and again lines 1894 to
  1900 for a workspace): progress to zero, \<open>setIsExtractPaused(false)\<close> and
  \<open>setHasAutoPassedOnce(false)\<close>, commented there as resetting the auto-pause mark.
\<close>

definition reset_for_new_load :: "extract_ui \<Rightarrow> extract_ui" where
  "reset_for_new_load st =
     st\<lparr>fullframesProgress := (0, 0), previewsProgress := (0, 0),
        isExtractPaused := False, hasAutoPassedOnce := False\<rparr>"

text \<open>The pause button (lines 4251 to 4262): toggle, and tell the back end.\<close>

definition toggle_pause :: "extract_ui \<Rightarrow> extract_ui" where
  "toggle_pause st =
     (let newPaused = \<not> isExtractPaused st in
      st\<lparr>isExtractPaused := newPaused,
         sent := sent st @ [if newPaused then PauseExtraction else ResumeExtraction]\<rparr>)"

datatype ui_event =
    ExtractProgress string nat nat
  | NewLoad
  | PauseButton

fun ui_step :: "extract_ui \<Rightarrow> ui_event \<Rightarrow> extract_ui" where
  "ui_step st (ExtractProgress stage current tot) = on_extract_progress stage current tot st"
| "ui_step st NewLoad = reset_for_new_load st"
| "ui_step st PauseButton = toggle_pause st"

definition ui_run :: "ui_event list \<Rightarrow> extract_ui" where
  "ui_run evs = foldl ui_step mounted evs"

section \<open>Workspace restore\<close>

text \<open>
  The part of \<open>loadWorkspaceFromPath\<close> that chooses and orders the GIF files (lines 1996 to
  2065). A directory entry is modelled by its name, a string as above.

  The code calls three functions of the JavaScript library on names:
  \<open>String.prototype.normalize\<close> (Unicode normalization form C), \<open>toLowerCase\<close> and
  \<open>localeCompare\<close> (which depends on the locale of the machine). They are parameters of the
  model: nothing is assumed about them but what a theorem states.
\<close>

type_synonym entry = jsstring

record js_strings =
  normalize :: "jsstring \<Rightarrow> jsstring"
  toLowerCase :: "jsstring \<Rightarrow> jsstring"
  localeCompare :: "jsstring \<Rightarrow> jsstring \<Rightarrow> int"

text \<open>
  \<open>name.replace(/[\/\\:*?"<>|]/g, '_')\<close>: slash, backslash, colon, star, question mark,
  double quote, angle brackets and bar become an underscore.
\<close>

definition illegal_char :: "nat \<Rightarrow> bool" where
  "illegal_char c = (c \<in> {47, 92, 58, 42, 63, 34, 60, 62, 124})"

definition sanitize :: "jsstring \<Rightarrow> jsstring" where
  "sanitize s = map (\<lambda>c. if illegal_char c then 95 else c) s"

text \<open>The predicate passed to \<open>allGifEntries.find\<close> in \<open>matchEntryByName\<close>.\<close>

definition name_matches :: "js_strings \<Rightarrow> jsstring \<Rightarrow> entry \<Rightarrow> bool" where
  "name_matches js target e =
     (let normalizedTarget = normalize js target;
          lowerTarget = toLowerCase js normalizedTarget;
          safeTarget = sanitize normalizedTarget;
          name = normalize js e;
          lower = toLowerCase js name;
          safe = sanitize name
      in name = normalizedTarget \<or> lower = lowerTarget \<or> safe = safeTarget)"

definition matchEntryByName :: "js_strings \<Rightarrow> entry list \<Rightarrow> jsstring \<Rightarrow> entry option" where
  "matchEntryByName js allGifEntries target = find (name_matches js target) allGifEntries"

text \<open>
  Step 4, the list of GIFs to load: with a persisted order, the entries its names resolve
  to; without one, every entry that is not a temporary file.
\<close>

definition is_temporary :: "js_strings \<Rightarrow> entry \<Rightarrow> bool" where
  "is_temporary js e =
     (let n = toLowerCase js e in
      sublist (lit ''temp_color_restored'') n \<or> sublist (lit ''temp_unoptimized'') n)"

definition select_entries :: "js_strings \<Rightarrow> jsstring list \<Rightarrow> entry list \<Rightarrow> entry list" where
  "select_entries js fileOrder allGifEntries =
     (if fileOrder \<noteq> []
      then List.map_filter (matchEntryByName js allGifEntries) fileOrder
      else filter (\<lambda>e. \<not> is_temporary js e) allGifEntries)"

text \<open>\<open>Array.prototype.findIndex\<close> and \<open>indexOf\<close>, with \<open>None\<close> for \<open>-1\<close>.\<close>

fun findIndex :: "('a \<Rightarrow> bool) \<Rightarrow> 'a list \<Rightarrow> nat option" where
  "findIndex P [] = None"
| "findIndex P (x # xs) = (if P x then Some 0 else map_option Suc (findIndex P xs))"

definition indexOf :: "'a list \<Rightarrow> 'a \<Rightarrow> nat option" where
  "indexOf xs x = findIndex (\<lambda>y. y = x) xs"

text \<open>
  The four attempts of the comparator to place an entry in the persisted order: the
  normalized name of the entry among the persisted names as they are, among the normalized
  persisted names, its sanitized form among the persisted names as they are, and its
  lower-case form among the lower-case forms of the persisted names as they are (which are
  not normalized first, unlike in \<open>matchEntryByName\<close>).
\<close>

definition order_index :: "js_strings \<Rightarrow> jsstring list \<Rightarrow> entry \<Rightarrow> nat option" where
  "order_index js fileOrder e =
     (let name = normalize js e;
          safeName = sanitize name;
          lowerName = toLowerCase js name
      in case indexOf fileOrder name of
           Some i \<Rightarrow> Some i
         | None \<Rightarrow>
             (case findIndex (\<lambda>f. normalize js f = name) fileOrder of
                Some i \<Rightarrow> Some i
              | None \<Rightarrow>
                  (case indexOf fileOrder safeName of
                     Some i \<Rightarrow> Some i
                   | None \<Rightarrow> findIndex (\<lambda>f. toLowerCase js f = lowerName) fileOrder)))"

text \<open>The comparator of \<open>gifEntries.sort\<close>.\<close>

definition compare_entries :: "js_strings \<Rightarrow> jsstring list \<Rightarrow> entry \<Rightarrow> entry \<Rightarrow> int" where
  "compare_entries js fileOrder a b =
     (case (order_index js fileOrder a, order_index js fileOrder b) of
        (Some indexA, Some indexB) \<Rightarrow> int indexA - int indexB
      | (Some indexA, None) \<Rightarrow> - 1
      | (None, Some indexB) \<Rightarrow> 1
      | (None, None) \<Rightarrow> localeCompare js (normalize js a) (normalize js b))"

text \<open>
  \<open>Array.prototype.sort\<close> is stable and, for a comparator that is a total preorder on the
  elements, returns them ordered by it; it is modelled by a stable insertion sort.
\<close>

fun insort_by :: "('a \<Rightarrow> 'a \<Rightarrow> int) \<Rightarrow> 'a \<Rightarrow> 'a list \<Rightarrow> 'a list" where
  "insort_by cmp x [] = [x]"
| "insort_by cmp x (y # ys) = (if cmp x y \<le> 0 then x # y # ys else y # insort_by cmp x ys)"

definition sort_by :: "('a \<Rightarrow> 'a \<Rightarrow> int) \<Rightarrow> 'a list \<Rightarrow> 'a list" where
  "sort_by cmp xs = foldr (insort_by cmp) xs []"

text \<open>
  The entries that are loaded, in order; \<open>None\<close> when the selection is empty (the function
  then alerts that no GIF was found and returns).
\<close>

definition restoreOrder :: "js_strings \<Rightarrow> jsstring list \<Rightarrow> entry list \<Rightarrow> entry list option" where
  "restoreOrder js fileOrder allGifEntries =
     (let gifEntries = select_entries js fileOrder allGifEntries in
      if gifEntries = [] then None
      else Some (sort_by (compare_entries js fileOrder) gifEntries))"



section \<open>Version switch\<close>

text \<open>
  The state \<open>handleSelectVersion\<close> works on, as far as extraction and the player go. The
  component returns early, without a \<open>GifPlayer\<close>, while \<open>loading\<close> is set, while \<open>error\<close> is
  set, and while \<open>frames\<close> is empty (lines 3832 to 3848); otherwise it renders one
  \<open>GifPlayer\<close>, without a key, at a fixed place. So the player, and with it the preload cache
  held in its refs, lives as long as none of the three holds, and its unmount clean-up
  (part_000, lines 269 to 280) runs when one of them starts to hold.
\<close>

record app =
  loading :: bool
  app_error :: "string option"
  frames_length :: nat
  versions :: "(string \<times> jsstring) list"
  currentVersionId :: string
  workDir :: jsstring
  frameFilesDir :: jsstring
  commands :: "command list"
  gifPlayer :: player

definition gif_player_mounted :: "app \<Rightarrow> bool" where
  "gif_player_mounted st = (\<not> loading st \<and> app_error st = None \<and> frames_length st \<noteq> 0)"

text \<open>
  The clean-up of the player: revoke the \<open>blob:\<close> URL of every cached image, then clear the
  map.
\<close>

definition unmount_cleanup :: "player \<Rightarrow> player" where
  "unmount_cleanup p =
     \<lparr>preloadCache = [],
      revoked = revoked p @ filter (prefix ''blob:'') (map snd (preloadCache p))\<rparr>"

definition rerender :: "app \<Rightarrow> app \<Rightarrow> app" where
  "rerender before after =
     (if gif_player_mounted before \<and> \<not> gif_player_mounted after
      then after\<lparr>gifPlayer := unmount_cleanup (gifPlayer after)\<rparr>
      else after)"

text \<open>
  What the back end answers during a switch: the path of the file in the work directory
  (the source path itself, or the copy made by \<open>read_file_to_workdir\<close>; \<open>None\<close> when the copy
  throws) and the frame count reported by \<open>parse_gif_preview\<close> (\<open>None\<close> when it throws).
\<close>

record switch_env =
  prepare_path :: "jsstring \<Rightarrow> jsstring option"
  parse_gif_preview :: "jsstring \<Rightarrow> nat option"

text \<open>
  \<open>handleSelectVersion\<close>, run to completion. The steps that only touch progress display,
  statistics and the delay cache are left out. \<open>setError(null)\<close> comes once the version
  is found; both \<open>catch\<close> blocks set \<open>error\<close> and put the previous version id back.
\<close>

definition handleSelectVersion :: "switch_env \<Rightarrow> string \<Rightarrow> bool \<Rightarrow> app \<Rightarrow> app" where
  "handleSelectVersion env versionId force st =
     (if versionId = currentVersionId st \<and> \<not> force then st
      else
        (let st1 = st\<lparr>commands := commands st @ [CancelExtraction]\<rparr> in
         case map_of (versions st1) versionId of
           None \<Rightarrow> st1
         | Some path \<Rightarrow>
             (let st2 = st1\<lparr>app_error := None\<rparr> in
              case prepare_path env path of
                None \<Rightarrow> rerender st (st2\<lparr>app_error := Some ''loadVersionError''\<rparr>)
              | Some destPath \<Rightarrow>
                  (case parse_gif_preview env destPath of
                     None \<Rightarrow> rerender st (st2\<lparr>app_error := Some ''loadVersionError''\<rparr>)
                   | Some frame_count \<Rightarrow>
                       rerender st
                         (st2\<lparr>frameFilesDir :=
                                 cache_name (workDir st2) (safeBaseFromPath destPath) ''_fullframes'',
                               commands := commands st2 @
                                 [ExtractFullframes destPath, ExtractPreviews destPath,
                                  ResumeExtraction],
                               frames_length := frame_count,
                               currentVersionId := versionId\<rparr>)))))"

text \<open>
  The first thing \<open>renderFrame\<close> does when a frames directory is set: look the current frame
  up in the preload cache, and draw the cached image when there is one.
\<close>

definition cached_image :: "app \<Rightarrow> nat \<Rightarrow> image option" where
  "cached_image st currentFrame =
     (if gif_player_mounted st \<and> frameFilesDir st \<noteq> []
      then map_of (preloadCache (gifPlayer st)) currentFrame
      else None)"

text \<open>
  An example: two versions, the first one active with three frames, its frame 0 in the preload
  cache; the back end answers every request, the second version having five frames.
\<close>

definition two_versions :: app where
  "two_versions =
     \<lparr>loading = False, app_error = None, frames_length = 3,
      versions = [(''v1'', lit ''/w/a.gif''), (''v2'', lit ''/w/b.gif'')],
      currentVersionId = ''v1'', workDir = lit ''/w'',
      frameFilesDir = lit ''/w/_a_fullframes'', commands = [],
      gifPlayer = \<lparr>preloadCache = [(0, ''blob:a-frame-0'')], revoked = []\<rparr>\<rparr>"

definition answering_env :: switch_env where
  "answering_env = \<lparr>prepare_path = Some, parse_gif_preview = (\<lambda>p. Some 5)\<rparr>"

section \<open>Properties of the binary cache codec\<close>

subsection \<open>Little-endian words\<close>

lemma unat_byte0: "unat (ucast (w::32 word) :: 8 word) = unat w mod 256"
  by (simp add: unsigned_ucast_eq take_bit_eq_mod)
lemma unat_byte_shift: "unat (ucast (drop_bit k (w::32 word)) :: 8 word) = unat w div 2^k mod 256"
proof -
  have "unat (ucast (drop_bit k w) :: 8 word) = drop_bit k (unat w) mod 256"
    by (simp only: unsigned_ucast_eq take_bit_eq_mod unat_drop_bit_eq) simp
  then show ?thesis by (simp only: drop_bit_eq_div)
qed

lemma base256_recompose:
  "a = r0 + 256 * b \<Longrightarrow> b = r1 + 256 * c \<Longrightarrow> c = r2 + 256 * d
   \<Longrightarrow> r0 + 256 * r1 + 65536 * r2 + 16777216 * d = (a::nat)"
  by simp

lemma le32_sum:
  assumes "n < 4294967296"
  shows "n mod 256 + 256 * (n div 256 mod 256) + 65536 * (n div 65536 mod 256) + 16777216 * (n div 16777216 mod 256) = (n::nat)"
proof -
  have a: "n div 65536 = n div 256 div 256" by (simp add: div_mult2_eq)
  have b: "n div 16777216 = n div 256 div 256 div 256" by (simp add: div_mult2_eq)
  have c: "n div 256 div 256 div 256 mod 256 = n div 256 div 256 div 256" using assms by simp
  show ?thesis
    unfolding a b c
    by (rule base256_recompose) simp_all
qed

lemma le32_value:
  "unat (le32 w ! 0) + 256 * unat (le32 w ! 1) + 65536 * unat (le32 w ! 2)
     + 16777216 * unat (le32 w ! 3) = unat w"
proof -
  have lt: "unat w < 4294967296" using unsigned_less[of w] by simp
  have b0: "unat (le32 w ! 0) = unat w mod 256" by (simp add: le32_def unat_byte0)
  have b1: "unat (le32 w ! 1) = unat w div 256 mod 256"
    using unat_byte_shift[of 8 w] by (simp add: le32_def)
  have b2: "unat (le32 w ! 2) = unat w div 65536 mod 256"
    using unat_byte_shift[of 16 w] by (simp add: le32_def)
  have b3: "unat (le32 w ! 3) = unat w div 16777216 mod 256"
    using unat_byte_shift[of 24 w] by (simp add: le32_def)
  show ?thesis unfolding b0 b1 b2 b3 by (rule le32_sum[OF lt])
qed

lemma length_le32: "length (le32 w) = 4" by (simp add: le32_def)

lemma getUint32_le32: "getUint32 (pre @ le32 w @ post) (length pre) = Inr (unat w)"
  using le32_value[of w] by (simp add: getUint32_def nth_append length_le32)

lemma read_delays_encoded:
  "read_delays (pre @ concat (map le32 ds)) (length pre) (length ds) = Inr (map unat ds)"
proof (induction ds arbitrary: pre)
  case Nil show ?case by simp
next
  case (Cons d ds)
  have "read_delays ((pre @ le32 d) @ concat (map le32 ds)) (length (pre @ le32 d)) (length ds) = Inr (map unat ds)"
    by (rule Cons.IH)
  then show ?case using getUint32_le32[of pre d "concat (map le32 ds)"]
    by (simp add: length_le32)
qed

text \<open>
  Claim C4 (delay round-trip). A list of at most 65535 delays, each a \<open>uint32\<close>, written
  in the documented layout (little-endian count, then the delays) is read back by
  \<open>_parseDelayBin\<close> without an exception and as exactly the same values.
\<close>

theorem delay_roundtrip:
  assumes "length ds \<le> 65535"
  shows "parseDelayBin (encodeDelays ds) = Inr (map unat ds)"
proof -
  have cnt: "unat (word_of_nat (length ds) :: 32 word) = length ds"
    using assms by (simp add: unat_of_nat)
  have hd: "getUint32 (encodeDelays ds) 0 = Inr (length ds)"
    using getUint32_le32[of "[]" "word_of_nat (length ds)" "concat (map le32 ds)"] cnt
    by (simp add: encodeDelays_def)
  have "read_delays (le32 (word_of_nat (length ds)) @ concat (map le32 ds)) (length (le32 (word_of_nat (length ds) :: 32 word))) (length ds) = Inr (map unat ds)"
    by (rule read_delays_encoded)
  then show ?thesis using hd by (simp add: parseDelayBin_def encodeDelays_def length_le32)
qed


theorem delay_roundtrip_witness:
  "length [100, 33, 70000 :: 32 word] \<le> 65535
   \<and> parseDelayBin (encodeDelays [100, 33, 70000]) = Inr [100, 33, 70000]"
  using delay_roundtrip [of "[100, 33, 70000]"] by simp

section \<open>Properties of the cache file names\<close>

subsection \<open>Decimal numerals\<close>

lemma decimal_digits: "\<forall>d\<in>set (decimal n). is_digit d"
proof (induction n rule: decimal.induct)
  case (1 n)
  show ?case
  proof (cases "n < 10")
    case True
    then show ?thesis by (subst decimal.simps) (simp add: is_digit_def)
  next
    case False
    have "n mod 10 < 10" by simp
    then have "is_digit (48 + n mod 10)" unfolding is_digit_def by linarith
    then show ?thesis using False 1 by (subst decimal.simps) simp
  qed
qed

lemma decimal_nonempty: "decimal n \<noteq> []"
  by (subst decimal.simps) simp

lemma decimal_value: "digits_value (decimal n) = n"
proof (induction n rule: decimal.induct)
  case (1 n)
  show ?case
  proof (cases "n < 10")
    case True
    then show ?thesis by (subst decimal.simps) (simp add: digits_value_def)
  next
    case False
    then have "digits_value (decimal (n div 10)) = n div 10" by (rule 1)
    then show ?thesis using False
      by (subst decimal.simps) (simp add: digits_value_def)
  qed
qed

lemma decimal_inj: "decimal m = decimal n \<Longrightarrow> m = n"
  by (metis decimal_value)

subsection \<open>Reading a sanitized name back\<close>

lemma not_digit_underscore: "\<not> is_digit 95" by (simp add: is_digit_def)
lemma not_alnum_underscore: "\<not> is_alnum 95" by (simp add: is_alnum_def is_digit_def)

lemma safe_name_Cons: "safe_name (c # cs) = safe_char c @ safe_name cs"
  by (simp add: safe_name_def)

lemma safe_name_Nil: "safe_name [] = []" by (simp add: safe_name_def)

lemma safe_char_nonempty: "safe_char c \<noteq> []" by (simp add: safe_char_def)

lemma safe_name_empty_iff: "safe_name b = [] \<longleftrightarrow> b = []"
  by (cases b) (simp_all add: safe_name_Nil safe_name_Cons safe_char_nonempty)

text \<open>What a sanitized name starts with when the name does not start with a digit.\<close>

lemma safe_name_head_not_digit:
  assumes "b = [] \<or> \<not> is_digit (hd b)"
  shows "safe_name b = [] \<or> \<not> is_digit (hd (safe_name b))"
proof (cases b)
  case Nil
  then show ?thesis by (simp add: safe_name_Nil)
next
  case (Cons c cs)
  then have "\<not> is_digit c" using assms by simp
  then show ?thesis using Cons
    by (simp add: safe_name_Cons safe_char_def not_digit_underscore)
qed

lemma takeWhile_digits:
  assumes "\<forall>d\<in>set ds. is_digit d" and "rest = [] \<or> \<not> is_digit (hd rest)"
  shows "takeWhile is_digit (ds @ rest) = ds"
proof -
  have "takeWhile is_digit rest = []" using assms(2) by (cases rest) auto
  then show ?thesis using assms(1) by simp
qed

lemma digit_free_tail: "digit_free_escapes (c # cs) \<Longrightarrow> digit_free_escapes cs"
  by (cases cs) simp_all

lemma digit_free_next:
  "digit_free_escapes (c # cs) \<Longrightarrow> \<not> is_alnum c \<Longrightarrow> cs = [] \<or> \<not> is_digit (hd cs)"
  by (cases cs) simp_all

lemma safe_name_inj:
  "digit_free_escapes a \<Longrightarrow> digit_free_escapes b \<Longrightarrow> safe_name a = safe_name b \<Longrightarrow> a = b"
proof (induction a arbitrary: b)
  case Nil
  then show ?case by (metis safe_name_empty_iff)
next
  case (Cons c cs)
  from Cons.prems(3) have "b \<noteq> []" by (metis safe_name_empty_iff list.distinct(1))
  then obtain d ds where b: "b = d # ds" by (cases b) auto
  have eq: "safe_char c @ safe_name cs = safe_char d @ safe_name ds"
    using Cons.prems(3) b by (simp add: safe_name_Cons)
  have tails: "digit_free_escapes cs" "digit_free_escapes ds"
    using Cons.prems(1,2) b digit_free_tail by blast+
  show ?case
  proof (cases "is_alnum c")
    case True
    have "is_alnum d"
    proof (rule ccontr)
      assume "\<not> is_alnum d"
      then have "c = 95" using eq True by (simp add: safe_char_def)
      then show False using True not_alnum_underscore by simp
    qed
    then have "c = d" "safe_name cs = safe_name ds" using eq True by (simp_all add: safe_char_def)
    then show ?thesis using Cons.IH[OF tails] b by simp
  next
    case False
    have nd: "\<not> is_alnum d"
    proof (rule ccontr)
      assume "\<not> \<not> is_alnum d"
      then have "d = 95" using eq False by (simp add: safe_char_def)
      then show False using \<open>\<not> \<not> is_alnum d\<close> not_alnum_underscore by simp
    qed
    have eq': "decimal c @ safe_name cs = decimal d @ safe_name ds"
      using eq False nd by (simp add: safe_char_def)
    have hc: "safe_name cs = [] \<or> \<not> is_digit (hd (safe_name cs))"
      by (rule safe_name_head_not_digit) (use Cons.prems(1) False digit_free_next in blast)
    have hd': "safe_name ds = [] \<or> \<not> is_digit (hd (safe_name ds))"
      by (rule safe_name_head_not_digit) (use Cons.prems(2) b nd digit_free_next in blast)
    have "decimal c = takeWhile is_digit (decimal c @ safe_name cs)"
      using takeWhile_digits[OF decimal_digits hc] by simp
    also have "\<dots> = takeWhile is_digit (decimal d @ safe_name ds)" using eq' by simp
    also have "\<dots> = decimal d" using takeWhile_digits[OF decimal_digits hd'] by simp
    finally have dec: "decimal c = decimal d" .
    then have "c = d" by (rule decimal_inj)
    moreover have "safe_name cs = safe_name ds" using eq' dec by simp
    ultimately show ?thesis using Cons.IH[OF tails] b by simp
  qed
qed

text \<open>
  Claim C8 (safe base name), as amended. For every source path the sanitized name is the base
  name with every character of \<open>[0-9A-Za-z]\<close> kept and every other character replaced by an
  underscore and the decimal digits of its code point; and two base names in which no replaced
  character is directly followed by a digit, and which differ, have different sanitized names.
\<close>

theorem safe_name_injective_without_digit_after_escape:
  "safeBaseFromPath p
     = concat (map (\<lambda>c. if is_alnum c then [c] else 95 # decimal c) (baseName p))
   \<and> digits_value (decimal c) = c
   \<and> (digit_free_escapes a \<and> digit_free_escapes b \<and> a \<noteq> b \<longrightarrow> safe_name a \<noteq> safe_name b)"
proof -
  have "safe_char = (\<lambda>c. if is_alnum c then [c] else 95 # decimal c)"
    by (rule ext) (simp add: safe_char_def)
  then have "safeBaseFromPath p
     = concat (map (\<lambda>c. if is_alnum c then [c] else 95 # decimal c) (baseName p))"
    by (simp add: safeBaseFromPath_def safe_name_def)
  then show ?thesis using decimal_value [of c] safe_name_inj [of a b] by blast
qed

theorem safe_name_injective_witness:
  "digit_free_escapes (lit ''my cat'') \<and> digit_free_escapes (lit ''my-cat'')
   \<and> safe_name (lit ''my cat'') \<noteq> safe_name (lit ''my-cat'')
   \<and> safe_name (lit ''my cat'') = lit ''my_32cat''
   \<and> digits_value (decimal 32) = 32"
proof -
  have a: "digit_free_escapes (lit ''my cat'')" by code_simp
  have b: "digit_free_escapes (lit ''my-cat'')" by code_simp
  have ne: "lit ''my cat'' \<noteq> lit ''my-cat''" by code_simp
  have v: "safe_name (lit ''my cat'') = lit ''my_32cat''" by code_simp
  show ?thesis
    using safe_name_injective_without_digit_after_escape
            [of "lit ''/w/my cat.gif''" 32 "lit ''my cat''" "lit ''my-cat''"] a b ne v
    by blast
qed

text \<open>
  The claim as stated fails. The file name made of a space and the digit zero and the file
  name made of the one letter with code point 320 have different base names, and both are
  sanitized to \<open>_320\<close>.
\<close>

theorem safe_name_collision:
  "baseName (lit ''/w/ 0.gif'') = [32, 48]
   \<and> baseName (lit ''/w/'' @ [320] @ lit ''.gif'') = [320]
   \<and> safeBaseFromPath (lit ''/w/ 0.gif'') = lit ''_320''
   \<and> safeBaseFromPath (lit ''/w/'' @ [320] @ lit ''.gif'') = lit ''_320''"
  by code_simp

section \<open>Properties of the frame-rate reduction preview\<close>

lemma merge_fast_spec:
  "\<exists>k\<le>length ds. merge_fast thr K j ds acc cnt = (acc + sum_list (take k ds), cnt + k)
                      \<and> (\<forall>x\<in>set (take k ds). x < thr)"
proof (induction ds arbitrary: j acc cnt)
  case Nil
  show ?case by simp
next
  case (Cons d ds)
  show ?case
  proof (cases "j < K \<and> d < thr")
    case True
    from Cons.IH[of "j + 1" "acc + d" "cnt + 1"] obtain k where
      k: "k \<le> length ds"
         "merge_fast thr K (j + 1) ds (acc + d) (cnt + 1) = (acc + d + sum_list (take k ds), cnt + 1 + k)"
         "\<forall>x\<in>set (take k ds). x < thr" by blast
    show ?thesis
      by (rule exI[of _ "Suc k"]) (use True k in \<open>simp add: add.assoc\<close>)
  next
    case False
    show ?thesis by (rule exI[of _ 0]) (use False in auto)
  qed
qed

lemma fps_step_fast:
  assumes "\<not> thr \<le> d"
  obtains k where "k \<le> length ds"
    and "merge_fast thr K 1 ds d 1 = (d + sum_list (take k ds), Suc k)"
    and "\<forall>x\<in>set (take k ds). x < thr"
    and "fps_newDelays thr K (d # ds) = min (d + sum_list (take k ds)) 65535 # fps_newDelays thr K (drop k ds)"
    and "fps_accumulated thr K (d # ds) = (d + sum_list (take k ds)) # fps_accumulated thr K (drop k ds)"
proof -
  from merge_fast_spec[of ds thr K 1 d 1] obtain k where
    k: "k \<le> length ds" "merge_fast thr K 1 ds d 1 = (d + sum_list (take k ds), 1 + k)"
       "\<forall>x\<in>set (take k ds). x < thr" by blast
  show thesis
    by (rule that[of k]) (use assms k in simp_all)
qed

lemma fps_keeps_slow: "subseq (filter (\<lambda>x. thr \<le> x) frames) (fps_newDelays thr K frames)"
proof (induction "length frames" arbitrary: frames rule: less_induct)
  case less
  show ?case
  proof (cases frames)
    case Nil
    then show ?thesis by simp
  next
    case (Cons d ds)
    show ?thesis
    proof (cases "thr \<le> d")
      case True
      have "subseq (filter (\<lambda>x. thr \<le> x) ds) (fps_newDelays thr K ds)"
        by (rule less) (simp add: Cons)
      then show ?thesis using True Cons by simp
    next
      case False
      then obtain k where k: "k \<le> length ds" "\<forall>x\<in>set (take k ds). x < thr"
        "fps_newDelays thr K (d # ds) = min (d + sum_list (take k ds)) 65535 # fps_newDelays thr K (drop k ds)"
        by (rule fps_step_fast)
      have "filter (\<lambda>x. thr \<le> x) (take k ds) = []" using k(2) by (auto simp: filter_empty_conv)
      then have f: "filter (\<lambda>x. thr \<le> x) ds = filter (\<lambda>x. thr \<le> x) (drop k ds)"
        by (metis append_Nil append_take_drop_id filter_append)
      have "subseq (filter (\<lambda>x. thr \<le> x) (drop k ds)) (fps_newDelays thr K (drop k ds))"
        by (rule less) (simp add: Cons)
      then have "subseq (filter (\<lambda>x. thr \<le> x) (drop k ds))
                   (min (d + sum_list (take k ds)) 65535 # fps_newDelays thr K (drop k ds))"
        by (rule list_emb_Cons)
      then show ?thesis unfolding Cons k(3) using False f by simp
    qed
  qed
qed

lemma fps_length: "length (fps_newDelays thr K frames) \<le> length frames"
proof (induction "length frames" arbitrary: frames rule: less_induct)
  case less
  show ?case
  proof (cases frames)
    case Nil
    then show ?thesis by simp
  next
    case (Cons d ds)
    show ?thesis
    proof (cases "thr \<le> d")
      case True
      have "length (fps_newDelays thr K ds) \<le> length ds"
        by (rule less) (simp add: Cons)
      then show ?thesis using True Cons by simp
    next
      case False
      then obtain k where k: "k \<le> length ds" 
        "fps_newDelays thr K (d # ds) = min (d + sum_list (take k ds)) 65535 # fps_newDelays thr K (drop k ds)"
        by (rule fps_step_fast)
      have "length (fps_newDelays thr K (drop k ds)) \<le> length (drop k ds)"
        by (rule less) (simp add: Cons)
      then show ?thesis unfolding Cons k(2) using k(1) by simp
    qed
  qed
qed

lemma fps_capped:
  "x \<in> set (fps_newDelays thr K frames) \<Longrightarrow> x \<le> 65535 \<or> (thr \<le> x \<and> x \<in> set frames)"
proof (induction "length frames" arbitrary: frames rule: less_induct)
  case less
  show ?case
  proof (cases frames)
    case Nil
    then show ?thesis using less.prems by simp
  next
    case (Cons d ds)
    show ?thesis
    proof (cases "thr \<le> d")
      case True
      have "x \<in> set (fps_newDelays thr K ds) \<Longrightarrow> x \<le> 65535 \<or> (thr \<le> x \<and> x \<in> set ds)"
        by (rule less(1)) (simp_all add: Cons)
      then show ?thesis using True Cons less.prems by auto
    next
      case False
      then obtain k where k: "k \<le> length ds" 
        "fps_newDelays thr K (d # ds) = min (d + sum_list (take k ds)) 65535 # fps_newDelays thr K (drop k ds)"
        by (rule fps_step_fast)
      have "x \<in> set (fps_newDelays thr K (drop k ds)) \<Longrightarrow> x \<le> 65535 \<or> (thr \<le> x \<and> x \<in> set (drop k ds))"
        by (rule less(1)) (simp_all add: Cons)
      moreover have "set (drop k ds) \<subseteq> set ds" by (rule set_drop_subset)
      ultimately show ?thesis using Cons k less.prems by auto
    qed
  qed
qed

lemma fps_sum:
  "\<forall>a\<in>set (fps_accumulated thr K frames). a \<le> 65535
   \<Longrightarrow> sum_list (fps_newDelays thr K frames) = sum_list frames"
proof (induction "length frames" arbitrary: frames rule: less_induct)
  case less
  show ?case
  proof (cases frames)
    case Nil
    then show ?thesis by simp
  next
    case (Cons d ds)
    show ?thesis
    proof (cases "thr \<le> d")
      case True
      have "sum_list (fps_newDelays thr K ds) = sum_list ds"
        by (rule less(1)) (use less.prems True Cons in simp_all)
      then show ?thesis using True Cons by simp
    next
      case False
      then obtain k where k: "k \<le> length ds" 
        "fps_newDelays thr K (d # ds) = min (d + sum_list (take k ds)) 65535 # fps_newDelays thr K (drop k ds)"
        "fps_accumulated thr K (d # ds) = (d + sum_list (take k ds)) # fps_accumulated thr K (drop k ds)"
        by (rule fps_step_fast)
      have acc: "d + sum_list (take k ds) \<le> 65535" 
        and rest: "\<forall>a\<in>set (fps_accumulated thr K (drop k ds)). a \<le> 65535"
        using less.prems Cons k(3) by simp_all
      have "sum_list (fps_newDelays thr K (drop k ds)) = sum_list (drop k ds)"
        by (rule less(1)) (use rest Cons in simp_all)
      moreover have "sum_list ds = sum_list (take k ds) + sum_list (drop k ds)"
        by (metis append_take_drop_id sum_list_append)
      ultimately show ?thesis using Cons k(2) acc by simp
    qed
  qed
qed

text \<open>
  Claim C10 (frame-rate reduction preview). For every frame list, threshold and keep interval:
  the frames whose delay reaches the threshold appear in the output, in order and with their
  delay unchanged; the output has at most as many frames as the input; every output delay that
  is not such a kept frame is at most 65535; and when no merged group accumulates more than
  65535, the output delays sum to what the input delays sum to.
\<close>

theorem fpsPreview_duration_preserved:
  "subseq (filter (\<lambda>d. thr \<le> d) frames) (fps_newDelays thr K frames)
   \<and> length (fps_newDelays thr K frames) \<le> length frames
   \<and> (\<forall>x\<in>set (fps_newDelays thr K frames). x \<le> 65535 \<or> (thr \<le> x \<and> x \<in> set frames))
   \<and> ((\<forall>a\<in>set (fps_accumulated thr K frames). a \<le> 65535)
        \<longrightarrow> sum_list (fps_newDelays thr K frames) = sum_list frames)"
  using fps_keeps_slow [of thr frames K] fps_length [of thr K frames]
    fps_capped [of _ thr K frames] fps_sum [of thr K frames]
  by blast

theorem fpsPreview_duration_preserved_witness:
  "fps_accumulated 100 2 [30, 30, 30, 200, 40, 50, 60] = [60, 30, 90, 60]
   \<and> fps_newDelays 100 2 [30, 30, 30, 200, 40, 50, 60] = [60, 30, 200, 90, 60]
   \<and> subseq [200] (fps_newDelays 100 2 [30, 30, 30, 200, 40, 50, 60])
   \<and> sum_list (fps_newDelays 100 2 [30, 30, 30, 200, 40, 50, 60])
       = sum_list [30, 30, 30, 200, 40, 50, 60]"
  using fpsPreview_duration_preserved [of 100 "[30, 30, 30, 200, 40, 50, 60]" 2]
  by simp

section \<open>Properties of the decoders on malformed buffers\<close>

lemma getUint32_fails: "length bs < off + 4 \<Longrightarrow> getUint32 bs off = Inl RangeError"
  by (simp add: getUint32_def)

lemma getUint32_cases:
  obtains "length bs < off + 4" "getUint32 bs off = Inl RangeError"
  | v where "off + 4 \<le> length bs" "getUint32 bs off = Inr v"
  by (cases "off + 4 \<le> length bs") (auto simp: getUint32_def)

lemma read_delays_short:
  "0 < n \<Longrightarrow> length bs < off + 4 * n \<Longrightarrow> read_delays bs off n = Inl RangeError"
proof (induction n arbitrary: off)
  case 0
  then show ?case by simp
next
  case (Suc n)
  show ?case
  proof (cases rule: getUint32_cases[of bs off])
    case 1
    then show ?thesis by simp
  next
    case (2 v)
    then have "0 < n" using Suc.prems by (cases n) auto
    moreover have "length bs < (off + 4) + 4 * n" using Suc.prems by simp
    ultimately have "read_delays bs (off + 4) n = Inl RangeError" by (rule Suc.IH)
    then show ?thesis using 2 by simp
  qed
qed

lemma parseDelayBin_short:
  assumes "getUint32 bs 0 = Inr count" and "length bs < 4 + 4 * count"
  shows "parseDelayBin bs = Inl RangeError"
proof -
  have "4 \<le> length bs" using assms(1) by (auto simp: getUint32_def split: if_splits)
  then have "0 < count" using assms(2) by (cases count) auto
  then have "read_delays bs 4 count = Inl RangeError" using assms(2) by (rule read_delays_short)
  then show ?thesis using assms(1) by (simp add: parseDelayBin_def)
qed

lemma isl_bind_err: "isl m \<Longrightarrow> isl (bind_err m f)"
  by (cases m) simp_all

lemma read_frames_short:
  "0 < n \<Longrightarrow> length bs < offset + 16 * n \<Longrightarrow> isl (read_frames bs offset i n)"
proof (induction n arbitrary: offset i)
  case 0
  then show ?case by simp
next
  case (Suc n)
  show ?case
  proof (cases "offset + 16 \<le> length bs")
    case False
    then consider "length bs < offset + 4" | "length bs < offset + 4 + 4"
      | "length bs < offset + 8 + 4" | "length bs < offset + 12 + 4" by linarith
    then show ?thesis
    proof cases
      case 1
      then show ?thesis by (simp add: getUint32_fails)
    next
      case 2
      then have "getUint32 bs (offset + 4) = Inl RangeError" by (rule getUint32_fails)
      then show ?thesis by (cases "getUint32 bs offset") simp_all
    next
      case 3
      then have "getUint32 bs (offset + 8) = Inl RangeError" by (rule getUint32_fails)
      then show ?thesis
        by (cases "getUint32 bs offset"; cases "getUint32 bs (offset + 4)") simp_all
    next
      case 4
      then have "getUint32 bs (offset + 12) = Inl RangeError" by (rule getUint32_fails)
      then show ?thesis
        by (cases "getUint32 bs offset"; cases "getUint32 bs (offset + 4)";
            cases "getUint32 bs (offset + 8)") simp_all
    qed
  next
    case True
    then have n: "0 < n" using Suc.prems by (cases n) auto
    have rec: "isl (bind_err (read_frames bs (offset + 16 + len) (Suc i) n) f)" for len
      and f :: "gif_frame list \<Rightarrow> js_error + gif_frame list"
      by (rule isl_bind_err, rule Suc.IH[OF n]) (use Suc.prems in simp)
    show ?thesis
      by (cases "getUint32 bs offset"; cases "getUint32 bs (offset + 4)";
          cases "getUint32 bs (offset + 8)"; cases "getUint32 bs (offset + 12)")
         (simp_all add: Let_def rec)
  qed
qed

lemma parsePreviewBin_short:
  assumes "getUint32 bs 8 = Inr count" and "length bs < 12 + 16 * count"
  shows "isl (parsePreviewBin bs)"
proof -
  have "12 \<le> length bs" using assms(1) by (auto simp: getUint32_def split: if_splits)
  then have "0 < count" using assms(2) by (cases count) auto
  then have "isl (read_frames bs 12 0 count)" using assms(2) by (rule read_frames_short)
  then show ?thesis using assms(1)
    by (cases "getUint32 bs 0"; cases "getUint32 bs 4") (simp_all add: parsePreviewBin_def isl_bind_err)
qed


section \<open>Properties of the disk cache loader\<close>

lemma bind_err_Inr_iff: "bind_err m f = Inr r \<longleftrightarrow> (\<exists>v. m = Inr v \<and> f v = Inr r)"
  by (cases m) simp_all

lemma invoke_Inr_iff: "invoke r = Inr v \<longleftrightarrow> r = Some v"
  by (cases r) (simp_all add: invoke_def)

lemma sidecar_size_valid: "sidecar_valid be name \<longleftrightarrow> (path_exists be name = Some True \<and> 0 < sidecar_size be name True)"
  by (auto simp: sidecar_valid_def sidecar_size_def split: option.splits)

lemma load_preview_gate:
  assumes "load_preview be True pn phn = Inr (Some c)"
  shows "sidecar_valid be phn"
  using assms
  by (auto simp: load_preview_def bind_err_Inr_iff invoke_Inr_iff Let_def sidecar_size_valid
           split: if_splits)

lemma load_delays_gate:
  assumes "load_delays be True dn dhn g alt gc = Inr (Some ds, gc')"
  shows "sidecar_valid be dhn"
  using assms
  by (auto simp: load_delays_def bind_err_Inr_iff invoke_Inr_iff Let_def sidecar_size_valid
           split: if_splits)

lemma load_delays_none_keeps_cache:
  assumes "load_delays be v dn dhn g alt gc = Inr (None, gc')"
  shows "gc' = gc"
  using assms
  by (auto simp: load_delays_def bind_err_Inr_iff Let_def split: if_splits)

lemma tryLoad_body_Inr:
  assumes "tryLoad_body be gc w g alt verify = Inr r"
  shows "(\<forall>c. loadedPreview r = Some c \<longrightarrow>
            load_preview be (verify \<noteq> Some False) (cache_file w g ''_preview.bin'')
              (cache_file w g ''_preview.sha256'') = Inr (Some c))
       \<and> (\<forall>ds. loadedDelays r = Some ds \<longrightarrow>
            load_delays be (verify \<noteq> Some False) (cache_file w g ''_delays.bin'')
              (cache_file w g ''_delays.sha256'') g alt gc = Inr (Some ds, global_delay_cache r))
       \<and> (loadedDelays r = None \<longrightarrow> global_delay_cache r = gc)"
  using assms
  by (auto simp: tryLoad_body_def cache_file_def bind_err_Inr_iff Let_def
           split: if_splits dest: load_delays_none_keeps_cache)

lemma sidecar_gate_preview:
  assumes "verify \<noteq> Some False" and "\<not> sidecar_valid be (cache_file w g ''_preview.sha256'')"
  shows "loadedPreview (tryLoadDiskCaches be gc w g alt verify) = None"
proof (cases "tryLoad_body be gc w g alt verify")
  case (Inl e)
  then show ?thesis by (simp add: tryLoadDiskCaches_def)
next
  case (Inr r)
  show ?thesis
  proof (cases "loadedPreview r")
    case None
    then show ?thesis using Inr by (simp add: tryLoadDiskCaches_def)
  next
    case (Some c)
    with tryLoad_body_Inr[OF Inr] assms(1)
    have "load_preview be True (cache_file w g ''_preview.bin'') (cache_file w g ''_preview.sha256'') = Inr (Some c)"
      by simp
    then have "sidecar_valid be (cache_file w g ''_preview.sha256'')" by (rule load_preview_gate)
    then show ?thesis using assms(2) by simp
  qed
qed

lemma sidecar_gate_delays:
  assumes "verify \<noteq> Some False" and "\<not> sidecar_valid be (cache_file w g ''_delays.sha256'')"
  shows "loadedDelays (tryLoadDiskCaches be gc w g alt verify) = None
         \<and> global_delay_cache (tryLoadDiskCaches be gc w g alt verify) = gc"
proof (cases "tryLoad_body be gc w g alt verify")
  case (Inl e)
  then show ?thesis by (simp add: tryLoadDiskCaches_def)
next
  case (Inr r)
  show ?thesis
  proof (cases "loadedDelays r")
    case None
    then show ?thesis using Inr tryLoad_body_Inr[OF Inr] by (simp add: tryLoadDiskCaches_def)
  next
    case (Some ds)
    with tryLoad_body_Inr[OF Inr] assms(1)
    have "load_delays be True (cache_file w g ''_delays.bin'') (cache_file w g ''_delays.sha256'') g alt gc
            = Inr (Some ds, global_delay_cache r)"
      by simp
    then have "sidecar_valid be (cache_file w g ''_delays.sha256'')" by (rule load_delays_gate)
    then show ?thesis using assms(2) by simp
  qed
qed

lemma load_delays_malformed:
  assumes "gate_open be verify dhn" and "read_file_in_chunks be dn = Some bs" and "isl (parseDelayBin bs)"
  shows "isl (load_delays be (verify \<noteq> Some False) dn dhn g alt gc)"
proof (cases "verify = Some False")
  case True
  then show ?thesis using assms(2,3)
    by (simp add: load_delays_def invoke_def isl_bind_err)
next
  case False
  then have "sidecar_valid be dhn" using assms(1) by (simp add: gate_open_def)
  then show ?thesis using False assms(2,3)
    by (simp add: load_delays_def invoke_def isl_bind_err sidecar_size_valid Let_def)
qed

lemma load_preview_malformed:
  assumes "gate_open be verify phn" and "read_file_in_chunks be pn = Some bs" and "isl (parsePreviewBin bs)"
  shows "isl (load_preview be (verify \<noteq> Some False) pn phn)"
proof (cases "verify = Some False")
  case True
  then show ?thesis using assms(2,3)
    by (simp add: load_preview_def invoke_def isl_bind_err)
next
  case False
  then have "sidecar_valid be phn" using assms(1) by (simp add: gate_open_def)
  then show ?thesis using False assms(2,3)
    by (simp add: load_preview_def invoke_def isl_bind_err sidecar_size_valid Let_def)
qed

lemma tryLoad_all_absent: "isl (tryLoad_body be gc w g alt verify) \<Longrightarrow> tryLoadDiskCaches be gc w g alt verify = all_absent gc"
  by (cases "tryLoad_body be gc w g alt verify") (simp_all add: tryLoadDiskCaches_def all_absent_def)

lemma isl_bind_err_cont: "(\<And>v. isl (f v)) \<Longrightarrow> isl (bind_err m f)"
  by (cases m) simp_all

lemma malformed_delays_all_absent:
  assumes "path_exists be (cache_file w g ''_delays.bin'') = Some True"
    and "gate_open be verify (cache_file w g ''_delays.sha256'')"
    and "read_file_in_chunks be (cache_file w g ''_delays.bin'') = Some bs"
    and "isl (parseDelayBin bs)"
  shows "tryLoadDiskCaches be gc w g alt verify = all_absent gc"
proof (rule tryLoad_all_absent)
  have d: "isl (load_delays be (verify \<noteq> Some False) (cache_file w g ''_delays.bin'')
                 (cache_file w g ''_delays.sha256'') g alt gc)"
    using assms(2,3,4) by (rule load_delays_malformed)
  have ex: "invoke (path_exists be (cache_file w g ''_delays.bin'')) = Inr True"
    using assms(1) by (simp add: invoke_def)
  show "isl (tryLoad_body be gc w g alt verify)"
    unfolding tryLoad_body_def Let_def cache_file_def[symmetric]
    by (rule isl_bind_err_cont, simp only: ex bind_err.simps if_True,
        rule isl_bind_err_cont, rule isl_bind_err, rule d)
qed

lemma malformed_preview_all_absent:
  assumes "path_exists be (cache_file w g ''_preview.bin'') = Some True"
    and "gate_open be verify (cache_file w g ''_preview.sha256'')"
    and "read_file_in_chunks be (cache_file w g ''_preview.bin'') = Some bs"
    and "isl (parsePreviewBin bs)"
  shows "tryLoadDiskCaches be gc w g alt verify = all_absent gc"
proof (rule tryLoad_all_absent)
  have p: "isl (load_preview be (verify \<noteq> Some False) (cache_file w g ''_preview.bin'')
                 (cache_file w g ''_preview.sha256''))"
    using assms(2,3,4) by (rule load_preview_malformed)
  have ex: "invoke (path_exists be (cache_file w g ''_preview.bin'')) = Inr True"
    using assms(1) by (simp add: invoke_def)
  show "isl (tryLoad_body be gc w g alt verify)"
    unfolding tryLoad_body_def Let_def cache_file_def[symmetric]
    by (simp only: ex bind_err.simps if_True, rule isl_bind_err_cont, rule isl_bind_err, rule p)
qed

subsection \<open>The example files\<close>

lemma cat_names:
  "cache_file work_dir cat_gif ''_preview.bin'' = lit ''/w/_cat_preview.bin''"
  "cache_file work_dir cat_gif ''_delays.bin'' = lit ''/w/_cat_delays.bin''"
  "cache_file work_dir cat_gif ''_preview.sha256'' = lit ''/w/_cat_preview.sha256''"
  "cache_file work_dir cat_gif ''_delays.sha256'' = lit ''/w/_cat_delays.sha256''"
  by code_simp+

lemma read_delays_unfold:
  "read_delays bs off n =
     (if n = 0 then Inr []
      else bind_err (getUint32 bs off) (\<lambda>d.
           bind_err (read_delays bs (off + 4) (n - 1)) (\<lambda>ds. Inr (d # ds))))"
  by (cases n; cases "getUint32 bs off"; cases "read_delays bs (off + 4) (n - 1)") simp_all

lemma read_frames_unfold:
  "read_frames bs offset i n =
     (if n = 0 then Inr []
      else bind_err (getUint32 bs offset) (\<lambda>delay.
           bind_err (getUint32 bs (offset + 4)) (\<lambda>pw.
           bind_err (getUint32 bs (offset + 8)) (\<lambda>ph.
           bind_err (getUint32 bs (offset + 12)) (\<lambda>len.
             let raw = take len (drop (offset + 16) bs) in
             if imageData_accepts (length raw) pw ph
             then bind_err (read_frames bs (offset + 16 + len) (i + 1) (n - 1)) (\<lambda>rest.
                    Inr (\<lparr>frame_delay = delay, frame_index = i, frame_canvas = Canvas pw ph raw\<rparr> # rest))
             else Inl ImageDataError)))))"
proof (cases n)
  case 0
  then show ?thesis by simp
next
  case (Suc m)
  show ?thesis unfolding Suc diff_Suc_1 by (simp cong: if_cong)
qed

lemma parse_cat_delays: "parseDelayBin cat_delays_bin = Inr [100, 33]"
  by (simp add: parseDelayBin_def cat_delays_bin_def getUint32_def read_delays_unfold)

lemma parse_short_delays: "parseDelayBin short_delays_bin = Inl RangeError"
  by (simp add: parseDelayBin_def short_delays_bin_def getUint32_def read_delays_unfold)

lemma parse_cat_preview:
  "parsePreviewBin cat_preview_bin
     = Inr \<lparr>cached_frames = [\<lparr>frame_delay = 100, frame_index = 0,
                                frame_canvas = Canvas 1 1 [255, 0, 0, 255]\<rparr>],
            cached_dims = (1, 1), cached_frameDelays = [100]\<rparr>"
  by (simp add: parsePreviewBin_def cat_preview_bin_def getUint32_def imageData_accepts_def read_frames_unfold)


lemma tryLoad_body_names:
  "tryLoad_body be gc w g alt verify =
     bind_err (invoke (path_exists be (cache_file w g ''_preview.bin''))) (\<lambda>existsPreview.
     bind_err (invoke (path_exists be (cache_file w g ''_delays.bin''))) (\<lambda>existsDelay.
     bind_err (if existsPreview
               then load_preview be (verify \<noteq> Some False) (cache_file w g ''_preview.bin'')
                      (cache_file w g ''_preview.sha256'')
               else Inr None) (\<lambda>lp.
     bind_err (if existsDelay
               then load_delays be (verify \<noteq> Some False) (cache_file w g ''_delays.bin'')
                      (cache_file w g ''_delays.sha256'') g alt gc
               else Inr (None, gc)) (\<lambda>(ld, gc').
       Inr \<lparr>loadedPreview = lp, loadedDelays = ld, global_delay_cache = gc'\<rparr>))))"
  unfolding tryLoad_body_def cache_file_def Let_def by (rule refl)

lemma parse_short_preview: "isl (parsePreviewBin short_preview_bin)"
  by (simp add: parsePreviewBin_def short_preview_bin_def getUint32_def imageData_accepts_def
        read_frames_unfold)

text \<open>
  A length prefix of a frame that exceeds the bytes left is not detected when the bytes left
  happen to fill the announced canvas: \<open>slice\<close> shortens the pixel data silently.
\<close>

lemma overlong_frame_length_accepted:
  "parsePreviewBin overlong_preview_bin
     = Inr \<lparr>cached_frames = [\<lparr>frame_delay = 100, frame_index = 0,
                                frame_canvas = Canvas 1 1 [255, 0, 0, 255]\<rparr>],
            cached_dims = (1, 1), cached_frameDelays = [100]\<rparr>"
  by (simp add: parsePreviewBin_def overlong_preview_bin_def getUint32_def imageData_accepts_def
        read_frames_unfold)

lemma short_files_facts:
  "path_exists (files_backend cat_files_short_delays) (cache_file work_dir cat_gif ''_delays.bin'')
     = Some True"
  "gate_open (files_backend cat_files_short_delays) None (cache_file work_dir cat_gif ''_delays.sha256'')"
  "read_file_in_chunks (files_backend cat_files_short_delays)
     (cache_file work_dir cat_gif ''_delays.bin'') = Some short_delays_bin"
  "path_exists (files_backend cat_files_short_preview) (cache_file work_dir cat_gif ''_preview.bin'')
     = Some True"
  "gate_open (files_backend cat_files_short_preview) None (cache_file work_dir cat_gif ''_preview.sha256'')"
  "read_file_in_chunks (files_backend cat_files_short_preview)
     (cache_file work_dir cat_gif ''_preview.bin'') = Some short_preview_bin"
  by (simp_all add: cat_names files_backend_def cat_files_short_delays_def
        cat_files_short_preview_def gate_open_def sidecar_valid_def)

text \<open>
  Claim C6 (cache validity gate), as amended. For every call of the disk-cache load in which
  verification is not switched off (\<open>verify\<close> is not \<open>false\<close>), and for each artifact: when
  its sidecar is missing, or its size is zero or cannot be read, the artifact is returned
  absent, and for the delay table the global delay cache is left as it was.
\<close>

theorem sidecar_gate_when_verifying:
  assumes "verify \<noteq> Some False"
  shows "(\<not> sidecar_valid be (cache_file w g ''_preview.sha256'')
            \<longrightarrow> loadedPreview (tryLoadDiskCaches be gc w g alt verify) = None)
       \<and> (\<not> sidecar_valid be (cache_file w g ''_delays.sha256'')
            \<longrightarrow> loadedDelays (tryLoadDiskCaches be gc w g alt verify) = None
                \<and> global_delay_cache (tryLoadDiskCaches be gc w g alt verify) = gc)"
  using sidecar_gate_preview [OF assms] sidecar_gate_delays [OF assms] by blast

theorem sidecar_gate_when_verifying_witness:
  "(None :: bool option) \<noteq> Some False
   \<and> \<not> sidecar_valid (files_backend cat_files_without_sidecars)
          (cache_file work_dir cat_gif ''_preview.sha256'')
   \<and> \<not> sidecar_valid (files_backend cat_files_without_sidecars)
          (cache_file work_dir cat_gif ''_delays.sha256'')
   \<and> read_file_in_chunks (files_backend cat_files_without_sidecars)
          (cache_file work_dir cat_gif ''_delays.bin'') = Some cat_delays_bin
   \<and> parseDelayBin cat_delays_bin = Inr [100, 33]
   \<and> loadedPreview (tryLoadDiskCaches (files_backend cat_files_without_sidecars) Map.empty
                       work_dir cat_gif None None) = None
   \<and> loadedDelays (tryLoadDiskCaches (files_backend cat_files_without_sidecars) Map.empty
                      work_dir cat_gif None None) = None"
proof -
  have v: "(None :: bool option) \<noteq> Some False" by simp
  have p: "\<not> sidecar_valid (files_backend cat_files_without_sidecars)
              (cache_file work_dir cat_gif ''_preview.sha256'')"
    by (simp add: cat_names files_backend_def cat_files_without_sidecars_def sidecar_valid_def)
  have d: "\<not> sidecar_valid (files_backend cat_files_without_sidecars)
              (cache_file work_dir cat_gif ''_delays.sha256'')"
    by (simp add: cat_names files_backend_def cat_files_without_sidecars_def sidecar_valid_def)
  have r: "read_file_in_chunks (files_backend cat_files_without_sidecars)
             (cache_file work_dir cat_gif ''_delays.bin'') = Some cat_delays_bin"
    by (simp add: cat_names files_backend_def cat_files_without_sidecars_def)
  show ?thesis
    using sidecar_gate_when_verifying [OF v, of "files_backend cat_files_without_sidecars"
            work_dir cat_gif Map.empty None] p d r parse_cat_delays
    by blast
qed

text \<open>
  The claim as stated fails: with \<open>verify = false\<close> the delay table is loaded although its
  sidecar has zero bytes.
\<close>

theorem unverified_load_ignores_sidecar:
  "loadedDelays (tryLoadDiskCaches (files_backend cat_files_without_sidecars) Map.empty
                   work_dir cat_gif None (Some False)) = Some [100, 33]
   \<and> \<not> sidecar_valid (files_backend cat_files_without_sidecars)
          (cache_file work_dir cat_gif ''_delays.sha256'')"
  by (simp add: tryLoadDiskCaches_def tryLoad_body_names cat_names files_backend_def
        cat_files_without_sidecars_def invoke_def load_preview_def load_delays_def
        parse_cat_delays parse_cat_preview sidecar_valid_def)

text \<open>
  Claim C5 (malformed length prefixes), as amended. A delay buffer whose count announces more
  entries than the bytes that follow makes \<open>_parseDelayBin\<close> throw a \<open>RangeError\<close>; a preview
  buffer whose frame count announces more frame headers than the bytes that follow makes
  \<open>_parsePreviewBin\<close> throw; and when the loader decodes a file on which its decoder throws,
  it returns both artifacts absent and leaves the global delay cache as it was.
\<close>

theorem malformed_prefix_fails_whole_load:
  "(getUint32 bs 0 = Inr count \<and> length bs < 4 + 4 * count
      \<longrightarrow> parseDelayBin bs = Inl RangeError)
   \<and> (getUint32 bs 8 = Inr count \<and> length bs < 12 + 16 * count
      \<longrightarrow> isl (parsePreviewBin bs))
   \<and> (path_exists be (cache_file w g ''_delays.bin'') = Some True
      \<and> gate_open be verify (cache_file w g ''_delays.sha256'')
      \<and> read_file_in_chunks be (cache_file w g ''_delays.bin'') = Some bs
      \<and> isl (parseDelayBin bs)
      \<longrightarrow> tryLoadDiskCaches be gc w g alt verify = all_absent gc)
   \<and> (path_exists be (cache_file w g ''_preview.bin'') = Some True
      \<and> gate_open be verify (cache_file w g ''_preview.sha256'')
      \<and> read_file_in_chunks be (cache_file w g ''_preview.bin'') = Some bs
      \<and> isl (parsePreviewBin bs)
      \<longrightarrow> tryLoadDiskCaches be gc w g alt verify = all_absent gc)"
  using parseDelayBin_short [of bs count] parsePreviewBin_short [of bs count]
    malformed_delays_all_absent [of be w g verify bs gc alt]
    malformed_preview_all_absent [of be w g verify bs gc alt]
  by blast

theorem malformed_prefix_fails_witness:
  "getUint32 short_delays_bin 0 = Inr 3 \<and> length short_delays_bin < 4 + 4 * 3
   \<and> parseDelayBin short_delays_bin = Inl RangeError
   \<and> tryLoadDiskCaches (files_backend cat_files_short_delays) Map.empty work_dir cat_gif None None
       = all_absent Map.empty
   \<and> getUint32 short_preview_bin 8 = Inr 2 \<and> length short_preview_bin < 12 + 16 * 2
   \<and> isl (parsePreviewBin short_preview_bin)
   \<and> tryLoadDiskCaches (files_backend cat_files_short_preview) Map.empty work_dir cat_gif None None
       = all_absent Map.empty"
proof -
  have d: "getUint32 short_delays_bin 0 = Inr 3" "length short_delays_bin < 4 + 4 * 3"
    by (simp_all add: short_delays_bin_def getUint32_def)
  have p: "getUint32 short_preview_bin 8 = Inr 2" "length short_preview_bin < 12 + 16 * 2"
    by (simp_all add: short_preview_bin_def getUint32_def)
  have dl: "isl (parseDelayBin short_delays_bin)" by (simp add: parse_short_delays)
  show ?thesis
    using malformed_prefix_fails_whole_load [of short_delays_bin 3
            "files_backend cat_files_short_delays" work_dir cat_gif None Map.empty None]
      malformed_prefix_fails_whole_load [of short_preview_bin 2
            "files_backend cat_files_short_preview" work_dir cat_gif None Map.empty None]
      d p dl short_files_facts
    by blast
qed

text \<open>
  The claim as stated fails: the failure is not confined to the malformed artifact. Here the
  preview bundle is well formed and its sidecar is valid, the delay table is short, and the
  preview is returned absent.
\<close>

theorem short_delays_discard_preview:
  "loadedPreview (tryLoadDiskCaches (files_backend cat_files_short_delays) Map.empty
                    work_dir cat_gif None None) = None
   \<and> sidecar_valid (files_backend cat_files_short_delays)
        (cache_file work_dir cat_gif ''_preview.sha256'')
   \<and> read_file_in_chunks (files_backend cat_files_short_delays)
        (cache_file work_dir cat_gif ''_preview.bin'') = Some cat_preview_bin
   \<and> \<not> isl (parsePreviewBin cat_preview_bin)"
  by (simp add: tryLoadDiskCaches_def tryLoad_body_names cat_names files_backend_def
        cat_files_short_delays_def invoke_def load_preview_def load_delays_def
        parse_short_delays parse_cat_preview sidecar_size_def sidecar_valid_def Let_def)

section \<open>Properties of the preload cache\<close>

text \<open>
  The handler of \<open>preloadFrames\<close> keeps the bound of 20 entries, and on a full cache evicts
  the oldest entry, revoking its URL once.
\<close>

lemma map_has_iff: "map_has k m \<longleftrightarrow> k \<in> fst ` set m"
  by (simp add: map_has_def map_of_eq_None_iff)

lemma length_map_set:
  "length (map_set k v m) = (if map_has k m then length m else Suc (length m))"
  by (simp add: map_set_def)

lemma preload_onload_bounded:
  assumes "length (preloadCache st) \<le> 20"
  shows "length (preloadCache (preload_onload k img st)) \<le> 20"
proof (cases "length (map_set k img (preloadCache st)) > 20")
  case False
  then show ?thesis by (simp add: preload_onload_def Let_def)
next
  case True
  then obtain fk fv rest where c: "map_set k img (preloadCache st) = (fk, fv) # rest"
    by (cases "map_set k img (preloadCache st)") auto
  have len: "length ((fk, fv) # rest) \<le> 21"
    using assms length_map_set[of k img "preloadCache st"] c by (auto split: if_splits)
  have "length (map_delete fk ((fk, fv) # rest)) \<le> length rest"
    by (simp add: map_delete_def)
  then show ?thesis using True c len
    by (simp add: preload_onload_def Let_def revokeObjectURL_def split: option.splits)
qed

lemma preload_all_bounded:
  "length (preloadCache st) \<le> 20 \<Longrightarrow> length (preloadCache (preload_all img idxs st)) \<le> 20"
  unfolding preload_all_def
  by (induction idxs arbitrary: st) (simp_all add: preload_onload_bounded)

lemma preload_onload_evicts_oldest:
  assumes full: "length (preloadCache st) = 20"
    and keys: "distinct (map fst (preloadCache st))"
    and new: "\<not> map_has k (preloadCache st)"
    and first: "preloadCache st = (firstKey, oldImg) # rest"
    and blob: "prefix ''blob:'' oldImg"
  shows "preload_onload k img st =
           st\<lparr>preloadCache := rest @ [(k, img)], revoked := revoked st @ [oldImg]\<rparr>"
proof -
  have k: "k \<noteq> firstKey" using new first by (auto simp: map_has_iff)
  have "firstKey \<notin> fst ` set rest" using keys first by auto
  then have "\<And>x. x \<in> set rest \<Longrightarrow> fst x \<noteq> firstKey" by (metis imageI)
  then have del: "map_delete firstKey (((firstKey, oldImg) # rest) @ [(k, img)]) = rest @ [(k, img)]"
    using k by (simp add: map_delete_def filter_id_conv case_prod_beta)
  have set: "map_set k img (preloadCache st) = ((firstKey, oldImg) # rest) @ [(k, img)]"
    using new first by (simp add: map_set_def)
  have len: "length (((firstKey, oldImg) # rest) @ [(k, img)]) > 20"
    using full first by simp
  have look: "map_of (((firstKey, oldImg) # rest) @ [(k, img)]) firstKey = Some oldImg"
    by simp
  show ?thesis
    unfolding preload_onload_def Let_def set
    using len look blob del
    by (simp add: revokeObjectURL_def)
qed

lemma preload_path_scenario:
  "map fst (preloadCache (preload_all (\<lambda>i. ''blob:frame'') [0..<25] new_player)) = [5..<25]
   \<and> length (revoked (preload_all (\<lambda>i. ''blob:frame'') [0..<25] new_player)) = 5"
  by code_simp

text \<open>
  Claim C1 (bounded cache). The claim asks that the cache never holds more than 20 entries after
  any sequence of insertions. The handler of \<open>renderFrame\<close> inserts without evicting: after
  it has stored the frames 0 to 20 the cache holds 21 entries and no URL has been revoked, and
  after the frames 0 to 24 the indices 0 to 4 are still present.
\<close>

theorem render_path_exceeds_capacity:
  "length (preloadCache (render_all img [0..<21] new_player)) = 21
   \<and> revoked (render_all img [0..<21] new_player) = []
   \<and> map fst (preloadCache (render_all img [0..<25] new_player)) = [0..<25]"
  by (simp add: render_all_def render_onload_def new_player_def map_set_def map_has_def upt_rec)

section \<open>Properties of the speed adjustment\<close>

subsection \<open>Shape of the result\<close>

lemma length_scale_range [simp]: "length (scale_range f rs re xs) = length xs"
  by (simp add: scale_range_def)

lemma nth_scale_range:
  "j < length xs \<Longrightarrow>
     scale_range f rs re xs ! j = (if rs \<le> j \<and> j \<le> re then max 10 (f (xs ! j)) else xs ! j)"
  by (simp add: scale_range_def)

lemma inner_stop:
  "\<not> (i \<le> re \<and> 0 < diff) \<Longrightarrow> distribute_inner dir i re fd diff = (fd, diff)"
  by (subst distribute_inner.simps) (rule if_not_P)

lemma inner_skip:
  "i \<le> re \<Longrightarrow> 0 < diff \<Longrightarrow> dir < 0 \<and> fd ! i + dir < 10 \<Longrightarrow>
     distribute_inner dir i re fd diff = distribute_inner dir (i + 1) re fd diff"
  by (subst distribute_inner.simps) (simp add: Let_def)

lemma inner_step:
  "i \<le> re \<Longrightarrow> 0 < diff \<Longrightarrow> \<not> (dir < 0 \<and> fd ! i + dir < 10) \<Longrightarrow>
     distribute_inner dir i re fd diff
       = distribute_inner dir (i + 1) re (fd[i := fd ! i + dir]) (diff - 1)"
  by (subst distribute_inner.simps) (auto simp: Let_def)

lemma distribute_stop:
  "\<not> (pass < 2 \<and> 0 < diff) \<Longrightarrow> distribute dir rs re pass fd diff = (fd, diff)"
  by (subst distribute.simps) (rule if_not_P)

lemma distribute_go:
  "pass < 2 \<Longrightarrow> 0 < diff \<Longrightarrow> distribute_inner dir rs re fd diff = (fd', diff') \<Longrightarrow>
     distribute dir rs re pass fd diff = distribute dir rs re (pass + 1) fd' diff'"
  by (subst distribute.simps) simp

lemma inner_length: "length (fst (distribute_inner dir i re fd diff)) = length fd"
proof (induction dir i re fd diff rule: distribute_inner.induct)
  case (1 dir i re fd diff)
  show ?case
  proof (cases "i \<le> re \<and> diff > 0")
    case False
    then show ?thesis by (simp add: inner_stop)
  next
    case True
    show ?thesis
    proof (cases "dir < 0 \<and> fd ! i + dir < 10")
      case skip: True
      show ?thesis using 1(1)[OF True refl skip] True skip by (simp add: inner_skip)
    next
      case step: False
      show ?thesis using 1(2)[OF True refl step] True step by (simp add: inner_step)
    qed
  qed
qed

lemma inner_outside:
  "j < i \<or> re < j \<Longrightarrow> fst (distribute_inner dir i re fd diff) ! j = fd ! j"
proof (induction dir i re fd diff rule: distribute_inner.induct)
  case (1 dir i re fd diff)
  show ?case
  proof (cases "i \<le> re \<and> diff > 0")
    case False
    then show ?thesis by (simp add: inner_stop)
  next
    case True
    then have ji: "j \<noteq> i" "j < i + 1 \<or> re < j" using 1(3) by auto
    show ?thesis
    proof (cases "dir < 0 \<and> fd ! i + dir < 10")
      case skip: True
      have "fst (distribute_inner dir (i + 1) re fd diff) ! j = fd ! j"
        using 1(1)[OF True refl skip ji(2)] .
      then show ?thesis using True skip by (simp add: inner_skip)
    next
      case step: False
      have "fst (distribute_inner dir (i + 1) re (fd[i := fd ! i + dir]) (diff - 1)) ! j
              = (fd[i := fd ! i + dir]) ! j"
        using 1(2)[OF True refl step ji(2)] .
      then show ?thesis using True step ji(1) by (simp add: inner_step)
    qed
  qed
qed

lemma distribute_length: "length (fst (distribute dir rs re pass fd diff)) = length fd"
proof (induction dir rs re pass fd diff rule: distribute.induct)
  case (1 dir rs re pass fd diff)
  show ?case
  proof (cases "pass < 2 \<and> diff > 0")
    case False
    then show ?thesis by (simp add: distribute_stop)
  next
    case True
    obtain fd' diff' where r: "distribute_inner dir rs re fd diff = (fd', diff')"
      by (cases "distribute_inner dir rs re fd diff")
    have "length (fst (distribute dir rs re (pass + 1) fd' diff')) = length fd'"
      using 1[OF True r[symmetric]] .
    moreover have "length fd' = length fd" using inner_length[of dir rs re fd diff] r by simp
    ultimately show ?thesis using True distribute_go[OF _ _ r, of pass] by simp
  qed
qed

lemma distribute_outside:
  "j < rs \<or> re < j \<Longrightarrow> fst (distribute dir rs re pass fd diff) ! j = fd ! j"
proof (induction dir rs re pass fd diff rule: distribute.induct)
  case (1 dir rs re pass fd diff)
  show ?case
  proof (cases "pass < 2 \<and> diff > 0")
    case False
    then show ?thesis by (simp add: distribute_stop)
  next
    case True
    obtain fd' diff' where r: "distribute_inner dir rs re fd diff = (fd', diff')"
      by (cases "distribute_inner dir rs re fd diff")
    have "fst (distribute dir rs re (pass + 1) fd' diff') ! j = fd' ! j"
      using 1(1)[OF True r[symmetric] 1(2)] .
    moreover have "fd' ! j = fd ! j" using inner_outside[OF 1(2), of dir fd diff] r by simp
    ultimately show ?thesis using True distribute_go[OF _ _ r, of pass] by simp
  qed
qed

lemma speedAdjust_shape:
  assumes "speedAdjust rnd delays rs re t = Some out"
  shows "length out = length delays \<and> (\<forall>j<length delays. j < rs \<or> re < j \<longrightarrow> out ! j = delays ! j)"
proof -
  let ?c = "range_sum delays rs re"
  let ?fd = "scale_range (rnd t ?c) rs re delays"
  have fd: "\<forall>j<length delays. j < rs \<or> re < j \<longrightarrow> ?fd ! j = delays ! j"
    by (auto simp: nth_scale_range)
  from assms consider "out = delays" | "out = ?fd"
    | dir diff where "out = fst (distribute dir rs re 0 ?fd diff)"
    by (auto simp: speedAdjust_def Let_def split: if_splits)
  then show ?thesis
  proof cases
    case 1
    then show ?thesis by simp
  next
    case 2
    then show ?thesis using fd by simp
  next
    case 3
    then show ?thesis using fd by (simp add: distribute_length distribute_outside)
  qed
qed


subsection \<open>Sums over the range\<close>

lemma range_sum_index:
  assumes "re < length xs"
  shows "range_sum xs rs re = (\<Sum>j = rs..re. xs ! j)"
proof (cases "rs \<le> re")
  case False
  then show ?thesis by (simp add: range_sum_def)
next
  case True
  define n where "n = re + 1 - rs"
  have len: "length (take n (drop rs xs)) = n" using assms True by (simp add: n_def)
  have "sum_list (take n (drop rs xs)) = (\<Sum>k = 0..<n. take n (drop rs xs) ! k)"
    using sum_list_sum_nth[of "take n (drop rs xs)"] len by simp
  also have "\<dots> = (\<Sum>k = 0..<n. xs ! (k + rs))"
    using assms True by (intro sum.cong) (auto simp: n_def add.commute)
  also have "\<dots> = (\<Sum>j = 0 + rs..<n + rs. xs ! j)"
    by (rule sum.shift_bounds_nat_ivl[symmetric])
  also have "{0 + rs..<n + rs} = {rs..re}" using True by (auto simp: n_def)
  finally show ?thesis by (simp add: range_sum_def n_def)
qed

lemma inner_no_skip:
  assumes "diff \<le> re + 1 - i"
    and "\<forall>j. i \<le> j \<and> j \<le> re \<longrightarrow> \<not> (dir < 0 \<and> fd ! j + dir < 10)"
    and "re < length fd"
  shows "snd (distribute_inner dir i re fd diff) = 0
       \<and> (\<Sum>j = i..re. fst (distribute_inner dir i re fd diff) ! j)
           = (\<Sum>j = i..re. fd ! j) + dir * int diff
       \<and> (\<forall>j. i \<le> j \<and> j \<le> re \<longrightarrow>
             fst (distribute_inner dir i re fd diff) ! j = fd ! j
             \<or> fst (distribute_inner dir i re fd diff) ! j = fd ! j + dir)"
  using assms
proof (induction dir i re fd diff rule: distribute_inner.induct)
  case (1 dir i re fd diff)
  show ?case
  proof (cases "i \<le> re \<and> diff > 0")
    case False
    then have "diff = 0" using "1.prems"(1) by auto
    then show ?thesis using False by (simp add: inner_stop)
  next
    case True
    have step: "\<not> (dir < 0 \<and> fd ! i + dir < 10)" using True "1.prems"(2) by auto
    let ?fd2 = "fd[i := fd ! i + dir]"
    let ?res = "fst (distribute_inner dir (i + 1) re ?fd2 (diff - 1))"
    have eq: "distribute_inner dir i re fd diff = distribute_inner dir (i + 1) re ?fd2 (diff - 1)"
      using True step by (simp add: inner_step)
    have p1: "diff - 1 \<le> re + 1 - (i + 1)" using True "1.prems"(1) by auto
    have p2: "\<forall>j. i + 1 \<le> j \<and> j \<le> re \<longrightarrow> \<not> (dir < 0 \<and> ?fd2 ! j + dir < 10)"
      using "1.prems"(2) by auto
    have p3: "re < length ?fd2" using "1.prems"(3) by simp
    note ih = "1.IH"(2)[OF True refl step p1 p2 p3]
    have at_i: "?res ! i = fd ! i + dir"
      using inner_outside[of i "i + 1" re dir ?fd2 "diff - 1"] True "1.prems"(3) by simp
    have tail: "(\<Sum>j = i + 1..re. ?fd2 ! j) = (\<Sum>j = i + 1..re. fd ! j)"
      by (intro sum.cong) auto
    have split: "\<And>f :: nat \<Rightarrow> int. (\<Sum>j = i..re. f j) = f i + (\<Sum>j = i + 1..re. f j)"
      using True by (simp add: sum.atLeast_Suc_atMost)
    have d: "int diff = int (diff - 1) + 1" using True by simp
    have s: "(\<Sum>j = i..re. ?res ! j) = (\<Sum>j = i..re. fd ! j) + dir * int diff"
      unfolding split[of "\<lambda>j. ?res ! j"] split[of "\<lambda>j. fd ! j"] at_i d
      using ih tail by (simp add: algebra_simps)
    have m: "\<forall>j. i \<le> j \<and> j \<le> re \<longrightarrow> ?res ! j = fd ! j \<or> ?res ! j = fd ! j + dir"
    proof (intro allI impI)
      fix j assume j: "i \<le> j \<and> j \<le> re"
      show "?res ! j = fd ! j \<or> ?res ! j = fd ! j + dir"
      proof (cases "j = i")
        case True
        then show ?thesis using at_i by simp
      next
        case False
        then have "i + 1 \<le> j \<and> j \<le> re" using j by auto
        then have "?res ! j = ?fd2 ! j \<or> ?res ! j = ?fd2 ! j + dir" using ih by blast
        then show ?thesis using False by simp
      qed
    qed
    show ?thesis unfolding eq using ih s m by blast
  qed
qed


lemma distribute_one_pass:
  assumes "0 < diff" and "diff \<le> re + 1 - rs"
    and "\<forall>j. rs \<le> j \<and> j \<le> re \<longrightarrow> \<not> (dir < 0 \<and> fd ! j + dir < 10)"
    and "re < length fd"
  shows "fst (distribute dir rs re 0 fd diff) = fst (distribute_inner dir rs re fd diff)"
proof -
  obtain fd' diff' where r: "distribute_inner dir rs re fd diff = (fd', diff')"
    by (cases "distribute_inner dir rs re fd diff")
  have "diff' = 0" using inner_no_skip[OF assms(2,3,4)] r by simp
  then have "distribute dir rs re (0 + 1) fd' diff' = (fd', diff')"
    by (simp add: distribute_stop)
  then show ?thesis using distribute_go[OF _ assms(1) r, of 0] r by simp
qed

lemma abs_scaled_le:
  fixes c a b n :: int
  assumes "0 < c" and "\<bar>c * a - c * b\<bar> \<le> c * n"
  shows "\<bar>a - b\<bar> \<le> n"
proof -
  have "\<bar>c * a - c * b\<bar> = c * \<bar>a - b\<bar>"
    using assms(1) by (simp add: right_diff_distrib[symmetric] abs_mult)
  then have "c * \<bar>a - b\<bar> \<le> c * n" using assms(2) by simp
  then show ?thesis using assms(1) by simp
qed

lemma residual_bound:
  fixes c t :: int and v d :: "nat \<Rightarrow> int"
  assumes "0 < c" and "\<forall>j. rs \<le> j \<and> j \<le> re \<longrightarrow> \<bar>c * v j - d j * t\<bar> \<le> c"
    and "(\<Sum>j = rs..re. d j) = c"
  shows "\<bar>t - (\<Sum>j = rs..re. v j)\<bar> \<le> int (re + 1 - rs)"
proof -
  have "(\<Sum>j = rs..re. c * v j - d j * t) = c * (\<Sum>j = rs..re. v j) - (\<Sum>j = rs..re. d j) * t"
    by (simp add: sum_subtractf sum_distrib_left sum_distrib_right)
  then have "c * (\<Sum>j = rs..re. v j) - t * c = (\<Sum>j = rs..re. c * v j - d j * t)"
    using assms(3) by (simp add: mult.commute)
  then have "\<bar>c * (\<Sum>j = rs..re. v j) - t * c\<bar> \<le> (\<Sum>j = rs..re. \<bar>c * v j - d j * t\<bar>)"
    by (metis sum_abs)
  also have "\<dots> \<le> (\<Sum>j = rs..re. c)"
    by (rule sum_mono) (use assms(2) in auto)
  also have "\<dots> = int (re + 1 - rs) * c" by simp
  finally have "\<bar>c * (\<Sum>j = rs..re. v j) - c * t\<bar> \<le> c * int (re + 1 - rs)"
    by (simp add: mult.commute)
  then have "\<bar>(\<Sum>j = rs..re. v j) - t\<bar> \<le> int (re + 1 - rs)"
    by (rule abs_scaled_le[OF assms(1)])
  then show ?thesis by (simp add: abs_minus_commute)
qed

lemma speed_adjust_sum:
  assumes range: "rs \<le> re" "re < length delays"
    and pos: "0 < range_sum delays rs re" "0 < t"
    and room: "\<forall>j. rs \<le> j \<and> j \<le> re \<longrightarrow> 11 \<le> rnd t (range_sum delays rs re) (delays ! j)"
    and err: "\<forall>j. rs \<le> j \<and> j \<le> re \<longrightarrow>
                \<bar>range_sum delays rs re * rnd t (range_sum delays rs re) (delays ! j) - delays ! j * t\<bar>
                  \<le> range_sum delays rs re"
  shows "\<exists>out. speedAdjust rnd delays rs re t = Some out
               \<and> range_sum out rs re = t \<and> (\<forall>j. rs \<le> j \<and> j \<le> re \<longrightarrow> 10 \<le> out ! j)"
proof -
  define c where "c = range_sum delays rs re"
  define f where "f = rnd t c"
  define fd where "fd = scale_range f rs re delays"
  have len: "re < length fd" using range(2) by (simp add: fd_def)
  have v: "fd ! j = f (delays ! j)" if "rs \<le> j \<and> j \<le> re" for j
  proof -
    have "11 \<le> f (delays ! j)" using room that by (simp add: f_def c_def)
    then show ?thesis using that range(2) by (simp add: fd_def nth_scale_range)
  qed
  have v11: "11 \<le> fd ! j" if "rs \<le> j \<and> j \<le> re" for j
    using that room v[OF that] by (simp add: f_def c_def)
  have csum: "(\<Sum>j = rs..re. delays ! j) = c"
    using range_sum_index[OF range(2), of rs] by (simp add: c_def)
  have S: "range_sum fd rs re = (\<Sum>j = rs..re. fd ! j)" by (rule range_sum_index[OF len])
  have "\<forall>j. rs \<le> j \<and> j \<le> re \<longrightarrow> \<bar>c * fd ! j - delays ! j * t\<bar> \<le> c"
    using err v by (simp add: c_def f_def)
  then have bound: "\<bar>t - (\<Sum>j = rs..re. fd ! j)\<bar> \<le> int (re + 1 - rs)"
    using residual_bound[of c rs re "\<lambda>j. fd ! j" "\<lambda>j. delays ! j" t] pos(1) csum
    by (simp add: c_def)
  show ?thesis
  proof (cases "t = c")
    case True
    have "10 \<le> delays ! j" if j: "rs \<le> j \<and> j \<le> re" for j
    proof -
      have "\<bar>c * f (delays ! j) - delays ! j * c\<bar> \<le> c"
        using err j True by (simp add: c_def f_def)
      then have "\<bar>c * f (delays ! j) - c * delays ! j\<bar> \<le> c * 1"
        by (simp add: mult.commute)
      moreover have "0 < c" using pos(1) by (simp add: c_def)
      ultimately have "\<bar>f (delays ! j) - delays ! j\<bar> \<le> 1"
        by (intro abs_scaled_le[of c "f (delays ! j)" "delays ! j" 1])
      moreover have "11 \<le> f (delays ! j)" using room j by (simp add: f_def c_def)
      ultimately show ?thesis by linarith
    qed
    then show ?thesis using True by (simp add: speedAdjust_def c_def)
  next
    case False
    define diff where "diff = t - range_sum fd rs re"
    have guard: "\<not> (rs \<le> re \<and> (length delays \<le> re \<or> c = 0))"
      using range(2) pos(1) by (simp add: c_def)
    have unfold: "speedAdjust rnd delays rs re t =
        (if diff \<noteq> 0
         then Some (fst (distribute (if diff > 0 then 1 else - 1) rs re 0 fd (nat \<bar>diff\<bar>)))
         else Some fd)"
      unfolding speedAdjust_def Let_def c_def[symmetric] f_def[symmetric] fd_def[symmetric]
        diff_def[symmetric]
      using False guard pos(2) by auto
    show ?thesis
    proof (cases "diff = 0")
      case True
      have "speedAdjust rnd delays rs re t = Some fd"
        using True by (simp add: unfold)
      moreover have "range_sum fd rs re = t" using True by (simp add: diff_def)
      moreover have "\<forall>j. rs \<le> j \<and> j \<le> re \<longrightarrow> 10 \<le> fd ! j" using v11 by force
      ultimately show ?thesis by blast
    next
      case nz: False
      define dir :: int where "dir = (if diff > 0 then 1 else - 1)"
      define nd where "nd = nat \<bar>diff\<bar>"
      let ?out = "fst (distribute dir rs re 0 fd nd)"
      have run: "speedAdjust rnd delays rs re t = Some ?out"
        using nz by (simp add: unfold dir_def nd_def)
      have nd_pos: "0 < nd" using nz by (simp add: nd_def)
      have nd_le: "nd \<le> re + 1 - rs" using bound S by (simp add: nd_def diff_def)
      have noskip: "\<forall>j. rs \<le> j \<and> j \<le> re \<longrightarrow> \<not> (dir < 0 \<and> fd ! j + dir < 10)"
      proof (intro allI impI)
        fix j assume j: "rs \<le> j \<and> j \<le> re"
        have "- 1 \<le> dir" by (simp add: dir_def)
        then show "\<not> (dir < 0 \<and> fd ! j + dir < 10)" using v11[OF j] by linarith
      qed
      have out: "?out = fst (distribute_inner dir rs re fd nd)"
        by (rule distribute_one_pass[OF nd_pos nd_le noskip len])
      note inner = inner_no_skip[OF nd_le noskip len]
      have dn: "dir * int nd = diff" by (simp add: dir_def nd_def)
      have "length ?out = length fd" by (rule distribute_length)
      then have "range_sum ?out rs re = (\<Sum>j = rs..re. ?out ! j)"
        using len by (intro range_sum_index) simp
      also have "\<dots> = (\<Sum>j = rs..re. fd ! j) + dir * int nd" using inner out by simp
      also have "\<dots> = t" using S dn by (simp add: diff_def)
      finally have sum: "range_sum ?out rs re = t" .
      have ge: "10 \<le> ?out ! j" if j: "rs \<le> j \<and> j \<le> re" for j
      proof -
        have "?out ! j = fd ! j \<or> ?out ! j = fd ! j + dir" using inner out j by simp
        moreover have "- 1 \<le> dir" by (simp add: dir_def)
        ultimately show ?thesis using v11[OF j] by linarith
      qed
      show ?thesis using run sum ge by blast
    qed
  qed
qed

lemma exact_round_error:
  assumes "0 < c"
  shows "\<bar>c * exact_round t c d - d * t\<bar> \<le> c"
proof -
  define q where "q = (2 * d * t + c) div (2 * c)"
  define r where "r = (2 * d * t + c) mod (2 * c)"
  have "q * (2 * c) + r = 2 * d * t + c"
    unfolding q_def r_def by (rule div_mult_mod_eq)
  then have m: "2 * (d * t) + c = 2 * (c * q) + r"
    by (simp add: algebra_simps)
  have r0: "0 \<le> r" and r1: "r < 2 * c" using assms by (simp_all add: r_def)
  have key: "\<And>x y :: int. 0 \<le> r \<Longrightarrow> r < 2 * c \<Longrightarrow> 2 * y + c = 2 * x + r \<Longrightarrow> \<bar>x - y\<bar> \<le> c"
    by linarith
  have "\<bar>c * q - d * t\<bar> \<le> c" by (rule key[OF r0 r1 m])
  then show ?thesis by (simp add: exact_round_def q_def)
qed

lemma speed_example_halved:
  "speedAdjust exact_round [100, 100, 100] 0 2 150 = Some [50, 50, 50]
   \<and> scale_range (exact_round 150 300) 0 2 [100, 100, 100] = [50, 50, 50]"
  by code_simp

lemma speed_example_residual:
  "speedAdjust exact_round [33, 33, 34, 7, 8] 0 2 50 = Some [16, 17, 17, 7, 8]"
  by code_simp

text \<open>
  Claim C7 (speed adjustment), as amended. For every delay list, range and target, the delays
  outside the range are unchanged. For a range inside the list with positive current sum and
  a positive target: when every delay of the range is scaled and rounded to at least 11 ms,
  with a rounding error of at most one, the delays of the range sum exactly to the target and
  none is below 10 ms.
  The delays 100, 100, 100 with target 150 become 50, 50, 50, the scaling alone reaching the
  target.
\<close>

theorem speed_adjust_reaches_target:
  "(\<forall>out. speedAdjust rnd delays rs re t = Some out \<longrightarrow>
       length out = length delays
       \<and> (\<forall>j<length delays. j < rs \<or> re < j \<longrightarrow> out ! j = delays ! j))
   \<and> (rs \<le> re \<and> re < length delays \<and> 0 < range_sum delays rs re \<and> 0 < t
       \<and> (\<forall>j. rs \<le> j \<and> j \<le> re \<longrightarrow> 11 \<le> rnd t (range_sum delays rs re) (delays ! j))
       \<and> (\<forall>j. rs \<le> j \<and> j \<le> re \<longrightarrow>
              \<bar>range_sum delays rs re * rnd t (range_sum delays rs re) (delays ! j)
                 - delays ! j * t\<bar> \<le> range_sum delays rs re)
      \<longrightarrow> (\<exists>out. speedAdjust rnd delays rs re t = Some out
                 \<and> range_sum out rs re = t
                 \<and> (\<forall>j. rs \<le> j \<and> j \<le> re \<longrightarrow> 10 \<le> out ! j)))
   \<and> speedAdjust exact_round [100, 100, 100] 0 2 150 = Some [50, 50, 50]"
proof -
  have shape: "\<forall>out. speedAdjust rnd delays rs re t = Some out \<longrightarrow>
       length out = length delays
       \<and> (\<forall>j<length delays. j < rs \<or> re < j \<longrightarrow> out ! j = delays ! j)"
    using speedAdjust_shape[of rnd delays rs re t] by blast
  have sum: "rs \<le> re \<and> re < length delays \<and> 0 < range_sum delays rs re \<and> 0 < t
       \<and> (\<forall>j. rs \<le> j \<and> j \<le> re \<longrightarrow> 11 \<le> rnd t (range_sum delays rs re) (delays ! j))
       \<and> (\<forall>j. rs \<le> j \<and> j \<le> re \<longrightarrow>
              \<bar>range_sum delays rs re * rnd t (range_sum delays rs re) (delays ! j)
                 - delays ! j * t\<bar> \<le> range_sum delays rs re)
      \<longrightarrow> (\<exists>out. speedAdjust rnd delays rs re t = Some out
                 \<and> range_sum out rs re = t
                 \<and> (\<forall>j. rs \<le> j \<and> j \<le> re \<longrightarrow> 10 \<le> out ! j))"
  proof
    assume h: "rs \<le> re \<and> re < length delays \<and> 0 < range_sum delays rs re \<and> 0 < t
       \<and> (\<forall>j. rs \<le> j \<and> j \<le> re \<longrightarrow> 11 \<le> rnd t (range_sum delays rs re) (delays ! j))
       \<and> (\<forall>j. rs \<le> j \<and> j \<le> re \<longrightarrow>
              \<bar>range_sum delays rs re * rnd t (range_sum delays rs re) (delays ! j)
                 - delays ! j * t\<bar> \<le> range_sum delays rs re)"
    show "\<exists>out. speedAdjust rnd delays rs re t = Some out
              \<and> range_sum out rs re = t
              \<and> (\<forall>j. rs \<le> j \<and> j \<le> re \<longrightarrow> 10 \<le> out ! j)"
      by (rule speed_adjust_sum[of rs re delays t rnd]) (use h in blast)+
  qed
  have ex: "speedAdjust exact_round [100, 100, 100] 0 2 150 = Some [50, 50, 50]"
    using speed_example_halved by (rule conjunct1)
  show ?thesis by (rule conjI[OF shape conjI[OF sum ex]])
qed

theorem speed_adjust_reaches_target_witness:
  "speedAdjust exact_round [33, 33, 34, 7, 8] 0 2 50 = Some [16, 17, 17, 7, 8]
   \<and> range_sum [16, 17, 17, 7, 8] 0 2 = 50
   \<and> range_sum [33, 33, 34, 7, 8] 0 2 = 100"
proof -
  let ?ds = "[33, 33, 34, 7, 8] :: int list"
  have c: "range_sum ?ds 0 2 = 100" by code_simp
  have idx: "j = 0 \<or> j = 1 \<or> j = 2" if "0 \<le> j \<and> j \<le> 2" for j :: nat
    using that by auto
  have room: "\<forall>j. 0 \<le> j \<and> j \<le> 2 \<longrightarrow> 11 \<le> exact_round 50 (range_sum ?ds 0 2) (?ds ! j)"
  proof (intro allI impI)
    fix j :: nat assume "0 \<le> j \<and> j \<le> 2"
    then have "j = 0 \<or> j = 1 \<or> j = 2" by (rule idx)
    then show "11 \<le> exact_round 50 (range_sum ?ds 0 2) (?ds ! j)"
      unfolding c by (auto simp: exact_round_def)
  qed
  have err: "\<forall>j. 0 \<le> j \<and> j \<le> 2 \<longrightarrow>
                \<bar>range_sum ?ds 0 2 * exact_round 50 (range_sum ?ds 0 2) (?ds ! j) - ?ds ! j * 50\<bar>
                  \<le> range_sum ?ds 0 2"
    unfolding c by (simp add: exact_round_error)
  have h: "(0 :: nat) \<le> 2 \<and> 2 < length ?ds \<and> 0 < range_sum ?ds 0 2 \<and> (0 :: int) < 50
       \<and> (\<forall>j. 0 \<le> j \<and> j \<le> 2 \<longrightarrow> 11 \<le> exact_round 50 (range_sum ?ds 0 2) (?ds ! j))
       \<and> (\<forall>j. 0 \<le> j \<and> j \<le> 2 \<longrightarrow>
              \<bar>range_sum ?ds 0 2 * exact_round 50 (range_sum ?ds 0 2) (?ds ! j) - ?ds ! j * 50\<bar>
                \<le> range_sum ?ds 0 2)"
    using room err c by simp
  note t = speed_adjust_reaches_target [of exact_round ?ds 0 2 50]
  from t[THEN conjunct2, THEN conjunct1, THEN mp, OF h]
  obtain out where out: "speedAdjust exact_round ?ds 0 2 50 = Some out" "range_sum out 0 2 = 50"
    by blast
  then have "out = [16, 17, 17, 7, 8]" using speed_example_residual by simp
  then show ?thesis using out speed_example_residual c by simp
qed

text \<open>
  The claim as stated fails: the 10 ms floor wins over the target. Three frames of 100 ms with
  a target of 20 ms become 10, 10, 10, which sum to 30.
\<close>

theorem speed_floor_misses_target:
  "0 < range_sum [100, 100, 100] 0 2
   \<and> speedAdjust exact_round [100, 100, 100] 0 2 20 = Some [10, 10, 10]
   \<and> range_sum [10, 10, 10] 0 2 = 30"
  by code_simp

section \<open>Properties of the auto-pause\<close>

lemma triggered_stays: "autoPauseTriggered st \<Longrightarrow> autoPauseTriggered (ui_step st ev)"
  by (cases ev) (simp_all add: on_extract_progress_def reset_for_new_load_def toggle_pause_def Let_def)

lemma no_second_auto_pause:
  "autoPauseTriggered st \<Longrightarrow>
     sent (on_extract_progress stage current tot st) = sent st
     \<and> isExtractPaused (on_extract_progress stage current tot st) = isExtractPaused st"
  by (simp add: on_extract_progress_def Let_def)

lemma first_crossing_pauses:
  "\<not> autoPauseTriggered st \<Longrightarrow> tot > 1000 \<Longrightarrow> current \<ge> 1000 \<Longrightarrow>
     sent (on_extract_progress stage current tot st) = sent st @ [PauseExtraction]
     \<and> isExtractPaused (on_extract_progress stage current tot st)"
  by (simp add: on_extract_progress_def Let_def)

text \<open>
  Claim C2 (auto-pause once per job). The claim asks that a later, distinct job can auto-pause
  again. The mark that gates the auto-pause is never reset, only the unused React state is:
  a first job of 1500 frames auto-pauses at 1000 and is resumed by hand; after another GIF is
  loaded, the second job of 1500 frames reaches 1000 and no pause is sent.
\<close>

theorem second_job_never_auto_pauses:
  "sent (ui_run [ExtractProgress ''fullframes'' 1000 1500, PauseButton,
                 ExtractProgress ''fullframes'' 1500 1500,
                 NewLoad,
                 ExtractProgress ''fullframes'' 1000 1500])
     = [PauseExtraction, ResumeExtraction]
   \<and> \<not> isExtractPaused (ui_run [ExtractProgress ''fullframes'' 1000 1500, PauseButton,
                 ExtractProgress ''fullframes'' 1500 1500,
                 NewLoad,
                 ExtractProgress ''fullframes'' 1000 1500])
   \<and> \<not> hasAutoPassedOnce (ui_run [ExtractProgress ''fullframes'' 1000 1500, PauseButton,
                 ExtractProgress ''fullframes'' 1500 1500,
                 NewLoad])"
  by (simp add: ui_run_def mounted_def on_extract_progress_def reset_for_new_load_def toggle_pause_def Let_def)
section \<open>Properties of the workspace restore\<close>

subsection \<open>The sort\<close>



lemma length_insort_by: "length (insort_by cmp x xs) = Suc (length xs)"
  by (induction xs) auto

lemma length_sort_by: "length (sort_by cmp xs) = length xs"
  by (induction xs) (simp_all add: sort_by_def length_insort_by)









subsection \<open>Positions in the persisted order\<close>






subsection \<open>The selection\<close>









subsection \<open>Without a persisted order\<close>






subsection \<open>A persisted name that is not normalized\<close>

text \<open>
  The comparator looks for the lower-case form of an entry's normalized name among the
  lower-case forms of the persisted names as they were written, so a persisted name that is
  not in normalization form C can select an entry and still not place it. \<open>E\<close> followed by a
  combining acute accent (U+0301) normalizes to U+00C9, whose lower-case form is U+00E9; the
  lower-case form of the decomposed name is \<open>e\<close> followed by the accent. With these values of
  the library functions, the persisted order naming the decomposed \<open>E.gif\<close> and then \<open>z.gif\<close>
  loads \<open>z.gif\<close> first.
\<close>

lemma restore_unnormalized_name_placed_last:
  assumes "normalize js ([69, 769] @ lit ''.gif'') = [201] @ lit ''.gif''"
    and "normalize js ([233] @ lit ''.gif'') = [233] @ lit ''.gif''"
    and "normalize js (lit ''z.gif'') = lit ''z.gif''"
    and "toLowerCase js ([69, 769] @ lit ''.gif'') = [101, 769] @ lit ''.gif''"
    and "toLowerCase js ([201] @ lit ''.gif'') = [233] @ lit ''.gif''"
    and "toLowerCase js ([233] @ lit ''.gif'') = [233] @ lit ''.gif''"
    and "toLowerCase js (lit ''z.gif'') = lit ''z.gif''"
  shows "restoreOrder js [[69, 769] @ lit ''.gif'', lit ''z.gif''] [[233] @ lit ''.gif'', lit ''z.gif'']
           = Some [lit ''z.gif'', [233] @ lit ''.gif'']"
  using assms
  by (simp add: restoreOrder_def select_entries_def List.map_filter_def matchEntryByName_def
      name_matches_def sort_by_def compare_entries_def order_index_def indexOf_def
      sanitize_def illegal_char_def Let_def)




section \<open>Properties of the version switch\<close>

lemma switch_success:
  assumes "versionId \<noteq> currentVersionId st \<or> force"
    and "map_of (versions st) versionId = Some path"
    and "prepare_path env path = Some destPath"
    and "parse_gif_preview env destPath = Some n" and "n \<noteq> 0"
    and "gif_player_mounted st"
  shows "handleSelectVersion env versionId force st =
           st\<lparr>app_error := None,
              frameFilesDir := cache_name (workDir st) (safeBaseFromPath destPath) ''_fullframes'',
              commands := commands st @ [CancelExtraction, ExtractFullframes destPath,
                                         ExtractPreviews destPath, ResumeExtraction],
              frames_length := n, currentVersionId := versionId\<rparr>"
  using assms
  by (auto simp: handleSelectVersion_def Let_def rerender_def gif_player_mounted_def)

lemma switch_commands:
  assumes "versionId \<noteq> currentVersionId st \<or> force"
  shows "\<exists>rest. commands (handleSelectVersion env versionId force st)
                  = commands st @ CancelExtraction # rest
               \<and> (rest = [] \<or> (\<exists>d. rest = [ExtractFullframes d, ExtractPreviews d, ResumeExtraction]))"
  using assms
  by (auto simp: handleSelectVersion_def Let_def rerender_def split: option.splits)

text \<open>
  Claim C9 (version switch), as amended. Every switch to a different version sends the
  cancellation before anything else, and what it sends after that is nothing or the start of
  the extraction of the full frames and of the previews of one file. When the version is in
  the version list and its file is prepared and parsed with at least one frame, while the
  player is shown, the extraction started is that of the new file, and the switch leaves the
  player and its preload cache as they were: the cache still answers for every frame index
  with the image it held before the switch.
\<close>

theorem switch_cancels_first_and_keeps_cache:
  assumes "versionId \<noteq> currentVersionId st"
  shows "(\<exists>rest. commands (handleSelectVersion env versionId force st)
                   = commands st @ CancelExtraction # rest
                \<and> (rest = [] \<or> (\<exists>d. rest = [ExtractFullframes d, ExtractPreviews d,
                                                ResumeExtraction])))
       \<and> (map_of (versions st) versionId = Some path
            \<and> prepare_path env path = Some destPath
            \<and> parse_gif_preview env destPath = Some n \<and> n \<noteq> 0
            \<and> gif_player_mounted st
          \<longrightarrow> commands (handleSelectVersion env versionId force st)
                = commands st @ [CancelExtraction, ExtractFullframes destPath,
                                 ExtractPreviews destPath, ResumeExtraction]
              \<and> currentVersionId (handleSelectVersion env versionId force st) = versionId
              \<and> gifPlayer (handleSelectVersion env versionId force st) = gifPlayer st
              \<and> cached_image (handleSelectVersion env versionId force st) i
                  = map_of (preloadCache (gifPlayer st)) i)"
proof -
  have sw: "versionId \<noteq> currentVersionId st \<or> force" using assms by simp
  have first: "\<exists>rest. commands (handleSelectVersion env versionId force st)
                  = commands st @ CancelExtraction # rest
               \<and> (rest = [] \<or> (\<exists>d. rest = [ExtractFullframes d, ExtractPreviews d,
                                               ResumeExtraction]))"
    by (rule switch_commands[OF sw])
  have kept: "map_of (versions st) versionId = Some path
            \<and> prepare_path env path = Some destPath
            \<and> parse_gif_preview env destPath = Some n \<and> n \<noteq> 0
            \<and> gif_player_mounted st
          \<longrightarrow> commands (handleSelectVersion env versionId force st)
                = commands st @ [CancelExtraction, ExtractFullframes destPath,
                                 ExtractPreviews destPath, ResumeExtraction]
              \<and> currentVersionId (handleSelectVersion env versionId force st) = versionId
              \<and> gifPlayer (handleSelectVersion env versionId force st) = gifPlayer st
              \<and> cached_image (handleSelectVersion env versionId force st) i
                  = map_of (preloadCache (gifPlayer st)) i"
  proof
    assume h: "map_of (versions st) versionId = Some path
            \<and> prepare_path env path = Some destPath
            \<and> parse_gif_preview env destPath = Some n \<and> n \<noteq> 0
            \<and> gif_player_mounted st"
    have eq: "handleSelectVersion env versionId force st =
           st\<lparr>app_error := None,
              frameFilesDir := cache_name (workDir st) (safeBaseFromPath destPath) ''_fullframes'',
              commands := commands st @ [CancelExtraction, ExtractFullframes destPath,
                                         ExtractPreviews destPath, ResumeExtraction],
              frames_length := n, currentVersionId := versionId\<rparr>"
      by (rule switch_success[OF sw]) (use h in blast)+
    have "cache_name (workDir st) (safeBaseFromPath destPath) ''_fullframes'' \<noteq> []"
      by (simp add: cache_name_def)
    then show "commands (handleSelectVersion env versionId force st)
                = commands st @ [CancelExtraction, ExtractFullframes destPath,
                                 ExtractPreviews destPath, ResumeExtraction]
              \<and> currentVersionId (handleSelectVersion env versionId force st) = versionId
              \<and> gifPlayer (handleSelectVersion env versionId force st) = gifPlayer st
              \<and> cached_image (handleSelectVersion env versionId force st) i
                  = map_of (preloadCache (gifPlayer st)) i"
      unfolding eq using h by (simp add: cached_image_def gif_player_mounted_def)
  qed
  show ?thesis by (rule conjI[OF first kept])
qed

theorem switch_cancels_first_witness:
  "commands (handleSelectVersion answering_env ''v2'' False two_versions)
     = [CancelExtraction, ExtractFullframes (lit ''/w/b.gif''),
        ExtractPreviews (lit ''/w/b.gif''), ResumeExtraction]
   \<and> gifPlayer (handleSelectVersion answering_env ''v2'' False two_versions)
     = \<lparr>preloadCache = [(0, ''blob:a-frame-0'')], revoked = []\<rparr>"
proof -
  have a: "''v2'' \<noteq> currentVersionId two_versions"
    by (simp add: two_versions_def)
  have h: "map_of (versions two_versions) ''v2'' = Some (lit ''/w/b.gif'')
           \<and> prepare_path answering_env (lit ''/w/b.gif'') = Some (lit ''/w/b.gif'')
           \<and> parse_gif_preview answering_env (lit ''/w/b.gif'') = Some 5 \<and> (5 :: nat) \<noteq> 0
           \<and> gif_player_mounted two_versions"
    by (simp add: two_versions_def answering_env_def gif_player_mounted_def)
  have b: "commands two_versions = []"
    "gifPlayer two_versions = \<lparr>preloadCache = [(0, ''blob:a-frame-0'')], revoked = []\<rparr>"
    by (simp_all add: two_versions_def)
  note t = switch_cancels_first_and_keeps_cache [OF a, of answering_env False
             "lit ''/w/b.gif''" "lit ''/w/b.gif''" 5 0]
  from t[THEN conjunct2, THEN mp, OF h] show ?thesis using b by simp
qed

text \<open>
  The claim as stated fails: the preload cache is not cleared. After the switch from \<open>v1\<close> to
  \<open>v2\<close> the frames directory is that of \<open>b.gif\<close>, and frame 0 is still answered from the
  cache with the image loaded for \<open>a.gif\<close>.
\<close>

theorem switch_serves_stale_image:
  "currentVersionId (handleSelectVersion answering_env ''v2'' False two_versions) = ''v2''
   \<and> frameFilesDir (handleSelectVersion answering_env ''v2'' False two_versions)
       = lit ''/w/_b_fullframes''
   \<and> cached_image (handleSelectVersion answering_env ''v2'' False two_versions) 0
       = Some ''blob:a-frame-0''"
  by code_simp

end
